theory Spec2Isabelle
  imports
    Main
    "HOL-Library.Char_ord"
    "HOL-Library.List_Lexorder"
    "HOL-Library.Mapping"
    "HOL-Library.AList_Mapping"
    "HOL-Library.Multiset"
begin

section \<open>tfdeps: the Terraform module dependency analyzer\<close>

text \<open>
  A shallow embedding of \<^verbatim>\<open>.harness/tfdeps.py\<close>. Python strings are modelled as
  \<^typ>\<open>string\<close>, one \<^typ>\<open>char\<close> per code point (code points below 256); strings are
  compared as Python compares them, lexicographically by code point. Verbose log output
  (\<^verbatim>\<open>self.log\<close>) is not modelled; the messages written by \<^verbatim>\<open>print\<close> are.
\<close>

subsection \<open>String operations of the Python standard library\<close>

text \<open>\<^verbatim>\<open>s.startswith(p)\<close> and \<^verbatim>\<open>s.endswith(p)\<close>.\<close>

definition startswith :: "string \<Rightarrow> string \<Rightarrow> bool" where
  "startswith s p \<longleftrightarrow> take (length p) s = p"

definition endswith :: "string \<Rightarrow> string \<Rightarrow> bool" where
  "endswith s p \<longleftrightarrow> length p \<le> length s \<and> drop (length s - length p) s = p"

text \<open>\<^verbatim>\<open>sub in s\<close>: the substring test, scanning the start positions from the left.\<close>

fun contains :: "string \<Rightarrow> string \<Rightarrow> bool" where
  "contains [] sub = (sub = [])"
| "contains (c # cs) sub = (startswith (c # cs) sub \<or> contains cs sub)"

text \<open>\<^verbatim>\<open>s.split(sep)[0]\<close> for a non-empty separator: the text before the first
  occurrence of \<open>sep\<close>, the whole of \<open>s\<close> when there is none.\<close>

fun split_head :: "string \<Rightarrow> string \<Rightarrow> string" where
  "split_head [] sep = []"
| "split_head (c # cs) sep = (if startswith (c # cs) sep then [] else c # split_head cs sep)"

text \<open>\<^verbatim>\<open>sep.join(xs)\<close>.\<close>

fun join :: "string \<Rightarrow> string list \<Rightarrow> string" where
  "join sep [] = []"
| "join sep [x] = x"
| "join sep (x # y # ys) = x @ sep @ join sep (y # ys)"

subsection \<open>Regular expressions of the source, as scanners\<close>

text \<open>
  \<^verbatim>\<open>\s\<close> in a Python 3 string pattern: the white space of \<^verbatim>\<open>str.isspace\<close>, which
  below code point 256 is 9 to 13, 28 to 32, 133 and 160.
\<close>

definition is_space :: "char \<Rightarrow> bool" where
  "is_space c \<longleftrightarrow> of_char c \<in> {9, 10, 11, 12, 13, 28, 29, 30, 31, 32, 133, 160 :: nat}"

definition newline :: char where
  "newline = CHR 0x0A"

definition dquote :: char where
  "dquote = CHR 0x22"

text \<open>
  \<^verbatim>\<open>"([^"]+)"\<close> at the start of \<open>s\<close>: the group and the text after the closing quote.
  The greedy \<^verbatim>\<open>[^"]+\<close> runs to the next quote; a shorter run is followed by a character
  that is no quote, so backtracking finds no other match.
\<close>

definition quoted :: "string \<Rightarrow> (string \<times> string) option" where
  "quoted s =
     (case s of
        [] \<Rightarrow> None
      | c # r \<Rightarrow>
          if c \<noteq> dquote then None
          else (let name = takeWhile (\<lambda>x. x \<noteq> dquote) r;
                    r' = dropWhile (\<lambda>x. x \<noteq> dquote) r
                in if name = [] then None
                   else (case r' of [] \<Rightarrow> None | q # r'' \<Rightarrow> Some (name, r''))))"

text \<open>\<^verbatim>\<open>\s*\{\<close> at the start of \<open>s\<close>: the text after the brace.\<close>

definition open_brace :: "string \<Rightarrow> string option" where
  "open_brace s =
     (case dropWhile is_space s of
        [] \<Rightarrow> None
      | c # r \<Rightarrow> if c = CHR ''{'' then Some r else None)"

text \<open>
  \<^verbatim>\<open>module\s+"([^"]+)"\s*\{\<close> matched at the start of \<open>s\<close>: the group and the text
  after the match. A run of \<^verbatim>\<open>\s\<close> is followed by a character that is no white space,
  so the greedy run is the only one that can match.
\<close>

definition match_module :: "string \<Rightarrow> (string \<times> string) option" where
  "match_module s =
     (if \<not> startswith s ''module'' then None
      else (let s1 = drop 6 s in
            if takeWhile is_space s1 = [] then None
            else (case quoted (dropWhile is_space s1) of
                    None \<Rightarrow> None
                  | Some (name, s2) \<Rightarrow>
                      (case open_brace s2 of None \<Rightarrow> None | Some s3 \<Rightarrow> Some (name, s3)))))"

text \<open>\<^verbatim>\<open>data\s+"[^"]+"\s+"([^"]+)"\s*\{\<close> matched at the start of \<open>s\<close>.\<close>

definition match_data :: "string \<Rightarrow> (string \<times> string) option" where
  "match_data s =
     (if \<not> startswith s ''data'' then None
      else (let s1 = drop 4 s in
            if takeWhile is_space s1 = [] then None
            else (case quoted (dropWhile is_space s1) of
                    None \<Rightarrow> None
                  | Some (data_type, s2) \<Rightarrow>
                      if takeWhile is_space s2 = [] then None
                      else (case quoted (dropWhile is_space s2) of
                              None \<Rightarrow> None
                            | Some (name, s3) \<Rightarrow>
                                (case open_brace s3 of
                                   None \<Rightarrow> None
                                 | Some s4 \<Rightarrow> Some (name, s4))))))"

text \<open>\<^verbatim>\<open>alias\s*=\s*"([^"]+)"\<close> matched at the start of \<open>s\<close>.\<close>

definition match_alias :: "string \<Rightarrow> (string \<times> string) option" where
  "match_alias s =
     (if \<not> startswith s ''alias'' then None
      else (case dropWhile is_space (drop 5 s) of
              [] \<Rightarrow> None
            | c # s1 \<Rightarrow>
                if c \<noteq> CHR ''='' then None
                else quoted (dropWhile is_space s1)))"

text \<open>
  \<^verbatim>\<open>re.findall(pattern, content)\<close> for a pattern with one group: the start positions
  are tried from the left; after a match the scan goes on behind it, so matches do not
  overlap. \<open>skip\<close> counts the characters of the last match that are still to pass.
  The patterns of this program match no empty string.
\<close>

fun findall_from :: "(string \<Rightarrow> (string \<times> string) option) \<Rightarrow> nat \<Rightarrow> string \<Rightarrow> string list" where
  "findall_from m skip [] = []"
| "findall_from m (Suc skip) (c # cs) = findall_from m skip cs"
| "findall_from m 0 (c # cs) =
     (case m (c # cs) of
        None \<Rightarrow> findall_from m 0 cs
      | Some (g, rest) \<Rightarrow> g # findall_from m (length cs - length rest) cs)"

definition findall :: "(string \<Rightarrow> (string \<times> string) option) \<Rightarrow> string \<Rightarrow> string list" where
  "findall m content = findall_from m 0 content"

subsection \<open>Comment stripping\<close>

text \<open>The text after the first \<^verbatim>\<open>*/\<close> of \<open>s\<close>, if there is one.\<close>

fun find_close :: "string \<Rightarrow> string option" where
  "find_close [] = None"
| "find_close (c # cs) =
     (if startswith (c # cs) ''*/'' then Some (drop 1 cs) else find_close cs)"

text \<open>
  \<^verbatim>\<open>re.sub(r'/\*.*?\*/', '', content, flags=re.DOTALL)\<close>: at the leftmost \<^verbatim>\<open>/*\<close> that
  has a \<^verbatim>\<open>*/\<close> behind it, the text up to the first such \<^verbatim>\<open>*/\<close> is deleted and the
  scan goes on behind it; a \<^verbatim>\<open>/*\<close> that is never closed stays.
\<close>

function strip_block :: "string \<Rightarrow> string" where
  "strip_block [] = []"
| "strip_block (c # cs) =
     (if startswith (c # cs) ''/*'' then
        (case find_close (drop 1 cs) of
           Some rest \<Rightarrow> strip_block rest
         | None \<Rightarrow> c # strip_block cs)
      else c # strip_block cs)"
  by pat_completeness auto
termination
proof (relation "measure length")
  fix c :: char and cs rest :: string
  assume close: "find_close (drop 1 cs) = Some rest"
  have shorter: "find_close s = Some r \<Longrightarrow> length r < length s" for s r
    by (induction s) (auto split: if_splits)
  have "length rest < length (drop 1 cs)" using close by (rule shorter)
  then show "(rest, c # cs) \<in> measure length" by simp
qed simp_all

text \<open>
  \<^verbatim>\<open>re.sub(r'//.*?$', '', content, flags=re.MULTILINE)\<close>: from each \<^verbatim>\<open>//\<close> the text
  up to the next newline (which stays) or the end is deleted; \<^verbatim>\<open>.\<close> matches every
  character but the newline and \<^verbatim>\<open>$\<close> matches before a newline and at the end.
\<close>

function strip_slashes :: "string \<Rightarrow> string" where
  "strip_slashes [] = []"
| "strip_slashes (c # cs) =
     (if startswith (c # cs) ''//'' then strip_slashes (dropWhile (\<lambda>x. x \<noteq> newline) (drop 1 cs))
      else c # strip_slashes cs)"
  by pat_completeness auto
termination
proof (relation "measure length")
  fix c :: char and cs :: string
  have "length (dropWhile (\<lambda>x. x \<noteq> newline) (drop 1 cs)) \<le> length (drop 1 cs)"
    by (rule length_dropWhile_le)
  then show "(dropWhile (\<lambda>x. x \<noteq> newline) (drop 1 cs), c # cs) \<in> measure length" by simp
qed simp_all

text \<open>\<^verbatim>\<open>re.sub(r'#.*?$', '', content, flags=re.MULTILINE)\<close>.\<close>

function strip_hash :: "string \<Rightarrow> string" where
  "strip_hash [] = []"
| "strip_hash (c # cs) =
     (if c = CHR ''#'' then strip_hash (dropWhile (\<lambda>x. x \<noteq> newline) cs)
      else c # strip_hash cs)"
  by pat_completeness auto
termination
proof (relation "measure length")
  fix c :: char and cs :: string
  have "length (dropWhile (\<lambda>x. x \<noteq> newline) cs) \<le> length cs"
    by (rule length_dropWhile_le)
  then show "(dropWhile (\<lambda>x. x \<noteq> newline) cs, c # cs) \<in> measure length" by simp
qed simp_all

definition remove_comments :: "string \<Rightarrow> string" where
  "remove_comments content = strip_hash (strip_slashes (strip_block content))"

declare strip_block.simps(2) [simp del]
declare strip_slashes.simps(2) [simp del]
declare strip_hash.simps(2) [simp del]

subsection \<open>Naming-pattern inference\<close>

text \<open>
  The body of the loop over \<^verbatim>\<open>data_blocks\<close> in \<^verbatim>\<open>extract_implicit_dependencies\<close>:
  the value of \<^verbatim>\<open>module_name\<close> for one \<^verbatim>\<open>data_name\<close>, \<open>None\<close> as in the source.
\<close>

definition infer_module_name :: "string \<Rightarrow> string option" where
  "infer_module_name data_name =
     (if contains data_name ''_vpc'' then
        (if contains data_name ''inner'' then Some ''inner_vpc''
         else if contains data_name ''outer'' then Some ''outer_vpc''
         else (let prefix = split_head data_name ''_vpc'' in
               if prefix \<noteq> [] then Some (prefix @ ''_vpc'') else None))
      else if contains data_name ''inner'' then Some ''inner_vpc''
      else if contains data_name ''outer'' then Some ''outer_vpc''
      else None)"

text \<open>
  \<^verbatim>\<open>if module_name: dependencies.add(module_name)\<close>: a name is added when it is neither
  \<^verbatim>\<open>None\<close> nor the empty string.
\<close>

definition add_inferred :: "string \<Rightarrow> string set \<Rightarrow> string set" where
  "add_inferred data_name deps =
     (case infer_module_name data_name of
        None \<Rightarrow> deps
      | Some module_name \<Rightarrow> if module_name \<noteq> [] then insert module_name deps else deps)"

subsection \<open>The \<^verbatim>\<open>modules_dir\<close> entry of the configuration file\<close>

text \<open>
  \<^verbatim>\<open>re.search(r'/\*.*modules_dir:\s*([^\s*]+).*?\*/', content, re.DOTALL)\<close>, group 1.
  Behind \<^verbatim>\<open>modules_dir:\<close> and its white space the group is the greedy run of
  characters that are neither white space nor \<^verbatim>\<open>*\<close>; it must not be empty and a
  \<^verbatim>\<open>*/\<close> must follow somewhere behind it.
\<close>

definition match_modules_dir :: "string \<Rightarrow> string option" where
  "match_modules_dir s =
     (if \<not> startswith s ''modules_dir:'' then None
      else (let s1 = dropWhile is_space (drop 12 s);
                path = takeWhile (\<lambda>c. \<not> is_space c \<and> c \<noteq> CHR ''*'') s1;
                s2 = dropWhile (\<lambda>c. \<not> is_space c \<and> c \<noteq> CHR ''*'') s1
            in if path = [] then None
               else if contains s2 ''*/'' then Some path
               else None))"

text \<open>The greedy \<^verbatim>\<open>.*\<close> gives way from the end: the last position that matches wins.\<close>

fun last_modules_dir :: "string \<Rightarrow> string option" where
  "last_modules_dir [] = None"
| "last_modules_dir (c # cs) =
     (case last_modules_dir cs of
        Some path \<Rightarrow> Some path
      | None \<Rightarrow> match_modules_dir (c # cs))"

text \<open>\<^verbatim>\<open>re.search\<close> takes the leftmost \<^verbatim>\<open>/*\<close> from which the pattern matches.\<close>

fun search_modules_dir :: "string \<Rightarrow> string option" where
  "search_modules_dir [] = None"
| "search_modules_dir (c # cs) =
     (if startswith (c # cs) ''/*'' then
        (case last_modules_dir (drop 1 cs) of
           Some path \<Rightarrow> Some path
         | None \<Rightarrow> search_modules_dir cs)
      else search_modules_dir cs)"

text \<open>\<^verbatim>\<open>s.strip()\<close>.\<close>

definition strip :: "string \<Rightarrow> string" where
  "strip s = rev (dropWhile is_space (rev (dropWhile is_space s)))"

subsection \<open>The file system, the schedule and the messages\<close>

text \<open>
  A directory is the list of its entries, each name with what is behind it; \<open>listable\<close>
  is false when \<^verbatim>\<open>os.listdir\<close> raises \<^verbatim>\<open>OSError\<close>. An entry of a module directory is
  a regular file, with its text or \<open>None\<close> when \<^verbatim>\<open>open\<close> raises \<^verbatim>\<open>IOError\<close>, or
  something that is no regular file, which \<^verbatim>\<open>open\<close> cannot read either.
\<close>

datatype fnode = File "string option" | NonFile

record 'a dir =
  listable :: bool
  entries :: "(string \<times> 'a) list"

datatype rnode = Subdir "fnode dir" | Other

datatype root = Missing | NotADirectory | Directory "rnode dir"

datatype hcl = NoFile | Unreadable | Content string

text \<open>
  The environment of a run: the configuration file, the path arithmetic of \<^verbatim>\<open>os.path\<close>
  that turns the \<^verbatim>\<open>modules_dir\<close> value into a path, what that path leads to, and
  whether \<^verbatim>\<open>dependencies.txt\<close> can be written.
\<close>

record env =
  hcl_file :: hcl
  resolve :: "string \<Rightarrow> string"
  fs :: "string \<Rightarrow> root"
  writable :: bool

text \<open>
  What may change from one run to the next on the same environment: the order in which
  Python iterates over a set of strings, and the order in which \<^verbatim>\<open>os.listdir\<close> returns
  the names of a directory.
\<close>

record schedule =
  set_order :: "string set \<Rightarrow> string list"
  listing_order :: "string list \<Rightarrow> string list"

text \<open>
  Iterating over a set visits each element once, and a listing holds each name of the
  directory once.
\<close>

definition valid_schedule :: "schedule \<Rightarrow> bool" where
  "valid_schedule sch \<longleftrightarrow>
     (\<forall>s. finite s \<longrightarrow> set (set_order sch s) = s \<and> distinct (set_order sch s)) \<and>
     (\<forall>names. mset (listing_order sch names) = mset names)"

text \<open>\<^verbatim>\<open>os.listdir(path)\<close> on a directory that can be listed.\<close>

definition listdir :: "schedule \<Rightarrow> 'a dir \<Rightarrow> string list" where
  "listdir sch d = listing_order sch (map fst (entries d))"

text \<open>The lines that \<^verbatim>\<open>print\<close> writes, without the paths and the system's error text.\<close>

datatype message =
    HclNotFound
  | HclReadError
  | NoModulesDirConfig
  | InvalidModulesDir
  | ScanError
  | NoModulesFound
  | Generated
  | WriteError

subsection \<open>The analyzer\<close>

record tfdeps =
  modules_dir :: "string option"
  dependencies :: "(string, string set) mapping"
  provider_aliases :: "(string, string set) mapping"
  all_modules :: "string set"

definition init :: tfdeps where
  "init = \<lparr>modules_dir = None, dependencies = Mapping.empty,
            provider_aliases = Mapping.empty, all_modules = {}\<rparr>"

definition extract_modules_dir :: "env \<Rightarrow> string option \<times> message list" where
  "extract_modules_dir e =
     (case hcl_file e of
        Content content \<Rightarrow>
          (case search_modules_dir content of
             Some g \<Rightarrow> (Some (resolve e (strip g)), [])
           | None \<Rightarrow> (None, [NoModulesDirConfig]))
      | _ \<Rightarrow> (None, [HclReadError]))"

text \<open>\<^verbatim>\<open>os.path.isdir(os.path.join(self.modules_dir, item))\<close>.\<close>

definition is_dir :: "rnode dir \<Rightarrow> string \<Rightarrow> bool" where
  "is_dir d item = (case map_of (entries d) item of Some (Subdir m) \<Rightarrow> True | _ \<Rightarrow> False)"

text \<open>
  \<^verbatim>\<open>scan_modules\<close>: the module list, the analyzer with \<^verbatim>\<open>all_modules\<close> filled, and
  the messages. \<^verbatim>\<open>not self.modules_dir\<close> holds for \<^verbatim>\<open>None\<close> and for the empty string.
\<close>

definition scan_modules ::
  "schedule \<Rightarrow> env \<Rightarrow> tfdeps \<Rightarrow> string list \<times> tfdeps \<times> message list" where
  "scan_modules sch e st =
     (case modules_dir st of
        None \<Rightarrow> ([], st, [InvalidModulesDir])
      | Some p \<Rightarrow>
          if p = [] then ([], st, [InvalidModulesDir])
          else (case fs e p of
                  Directory d \<Rightarrow>
                    if \<not> listable d then ([], st, [ScanError])
                    else (let items = listdir sch d;
                              modules = filter (\<lambda>item. is_dir d item \<and> \<not> startswith item ''.'')
                                               (sort items)
                          in (sort modules,
                              st\<lparr>all_modules := all_modules st \<union> set modules\<rparr>, []))
                | _ \<Rightarrow> ([], st, [InvalidModulesDir])))"

text \<open>
  What \<^verbatim>\<open>os.path.join(self.modules_dir, module_name)\<close> leads to; a path that is no
  directory has no files and cannot be listed.
\<close>

definition module_path :: "env \<Rightarrow> tfdeps \<Rightarrow> string \<Rightarrow> fnode dir" where
  "module_path e st module_name =
     (case modules_dir st of
        None \<Rightarrow> \<lparr>listable = False, entries = []\<rparr>
      | Some p \<Rightarrow>
          (case fs e p of
             Directory d \<Rightarrow>
               (case map_of (entries d) module_name of
                  Some (Subdir m) \<Rightarrow> m
                | _ \<Rightarrow> \<lparr>listable = False, entries = []\<rparr>)
           | _ \<Rightarrow> \<lparr>listable = False, entries = []\<rparr>))"

text \<open>
  \<^verbatim>\<open>open(os.path.join(module_path, filename)).read()\<close>, \<open>None\<close> when it raises
  \<^verbatim>\<open>IOError\<close>.
\<close>

definition read_file :: "fnode dir \<Rightarrow> string \<Rightarrow> string option" where
  "read_file d filename =
     (case map_of (entries d) filename of Some (File content) \<Rightarrow> content | _ \<Rightarrow> None)"

text \<open>
  \<^verbatim>\<open>extract_provider_aliases\<close>: a name that is no regular file fails
  \<^verbatim>\<open>os.path.isfile\<close>, a regular file that cannot be read is skipped; both add nothing.
\<close>

definition extract_provider_aliases :: "fnode dir \<Rightarrow> string set" where
  "extract_provider_aliases d =
     fold (\<lambda>filename aliases.
             case read_file d filename of
               Some content \<Rightarrow> aliases \<union> set (findall match_alias (remove_comments content))
             | None \<Rightarrow> aliases)
          [''provider.tf'', ''versions.tf''] {}"

text \<open>\<^verbatim>\<open>[f for f in os.listdir(module_path) if f.endswith('.tf')]\<close>.\<close>

definition tf_files :: "schedule \<Rightarrow> fnode dir \<Rightarrow> string list" where
  "tf_files sch d = filter (\<lambda>f. endswith f ''.tf'') (listdir sch d)"

definition extract_explicit_dependencies :: "schedule \<Rightarrow> fnode dir \<Rightarrow> string set" where
  "extract_explicit_dependencies sch d =
     (if \<not> listable d then {}
      else fold (\<lambda>tf_file dependencies.
                   case read_file d tf_file of
                     Some content \<Rightarrow>
                       dependencies \<union> set (findall match_module (remove_comments content))
                   | None \<Rightarrow> dependencies)
                (tf_files sch d) {})"

definition extract_implicit_dependencies :: "schedule \<Rightarrow> fnode dir \<Rightarrow> string set" where
  "extract_implicit_dependencies sch d =
     (if \<not> listable d then {}
      else fold (\<lambda>tf_file dependencies.
                   case read_file d tf_file of
                     Some content \<Rightarrow>
                       fold add_inferred (findall match_data (remove_comments content)) dependencies
                   | None \<Rightarrow> dependencies)
                (tf_files sch d) {})"

text \<open>The names that \<^verbatim>\<open>scan_modules\<close> takes for modules: directories that are not hidden.\<close>

definition module_names :: "rnode dir \<Rightarrow> string set" where
  "module_names d =
     {item \<in> set (map fst (entries d)). is_dir d item \<and> \<not> startswith item ''.''}"

text \<open>
  The local names of all \<^verbatim>\<open>data\<close> blocks, and the names of all \<^verbatim>\<open>module\<close> blocks, in
  the comment-stripped texts of the readable \<^verbatim>\<open>.tf\<close> files of a module directory.
\<close>

definition tf_texts :: "fnode dir \<Rightarrow> string list" where
  "tf_texts d =
     concat (map (\<lambda>f. case read_file d f of
                         Some content \<Rightarrow> [remove_comments content]
                       | None \<Rightarrow> [])
                 (filter (\<lambda>f. endswith f ''.tf'') (map fst (entries d))))"

definition data_blocks :: "fnode dir \<Rightarrow> string list" where
  "data_blocks d = concat (map (findall match_data) (tf_texts d))"

definition module_blocks :: "fnode dir \<Rightarrow> string list" where
  "module_blocks d = concat (map (findall match_module) (tf_texts d))"

text \<open>\<^verbatim>\<open>d[k].add(v)\<close> on a \<^verbatim>\<open>defaultdict(set)\<close>.\<close>

definition add_member ::
  "string \<Rightarrow> string \<Rightarrow> (string, string set) mapping \<Rightarrow> (string, string set) mapping" where
  "add_member k v d = Mapping.update k (insert v (Mapping.lookup_default {} d k)) d"

text \<open>\<^verbatim>\<open>analyze_module\<close>.\<close>

definition analyze_module :: "schedule \<Rightarrow> env \<Rightarrow> string \<Rightarrow> tfdeps \<Rightarrow> tfdeps" where
  "analyze_module sch e module_name st =
     (let path = module_path e st module_name;
          aliases = extract_provider_aliases path;
          st1 = fold (\<lambda>alias s. s\<lparr>provider_aliases :=
                                     add_member alias module_name (provider_aliases s)\<rparr>)
                     (set_order sch aliases) st;
          explicit_deps = extract_explicit_dependencies sch path;
          implicit_deps = extract_implicit_dependencies sch path;
          all_deps = (explicit_deps \<union> implicit_deps) - {module_name}
      in fold (\<lambda>dep s. s\<lparr>dependencies := add_member module_name dep (dependencies s)\<rparr>)
              (set_order sch all_deps) st1)"

text \<open>
  The values of \<^verbatim>\<open>aliases\<close> and of \<^verbatim>\<open>all_deps\<close> (after \<^verbatim>\<open>discard\<close>) in
  \<^verbatim>\<open>analyze_module\<close> for one module.
\<close>

definition module_aliases :: "env \<Rightarrow> tfdeps \<Rightarrow> string \<Rightarrow> string set" where
  "module_aliases e st module_name = extract_provider_aliases (module_path e st module_name)"

definition all_deps :: "schedule \<Rightarrow> env \<Rightarrow> tfdeps \<Rightarrow> string \<Rightarrow> string set" where
  "all_deps sch e st module_name =
     (extract_explicit_dependencies sch (module_path e st module_name) \<union>
      extract_implicit_dependencies sch (module_path e st module_name)) - {module_name}"

text \<open>\<^verbatim>\<open>sorted(self.dependencies.get(module, []))\<close>: the rendered dependency list.\<close>

definition depends_on :: "tfdeps \<Rightarrow> string \<Rightarrow> string list" where
  "depends_on st module =
     (case Mapping.lookup (dependencies st) module of
        None \<Rightarrow> []
      | Some ds \<Rightarrow> sorted_list_of_set ds)"

text \<open>The line of one module in the \<^verbatim>\<open>MODULES:\<close> section.\<close>

definition module_line :: "tfdeps \<Rightarrow> string \<Rightarrow> string" where
  "module_line st module =
     (let deps = depends_on st module
      in if deps \<noteq> [] then ''- '' @ module @ '' (depends_on: '' @ join '', '' deps @ '')''
         else ''- '' @ module)"

text \<open>The lines of one \<^verbatim>\<open>PROVIDER\<close> section, appended to \<open>output_lines\<close>.\<close>

definition provider_lines :: "tfdeps \<Rightarrow> string \<Rightarrow> string list \<Rightarrow> string list" where
  "provider_lines st alias output_lines =
     fold (\<lambda>module ls. ls @ [''- '' @ module])
          (sorted_list_of_set (Mapping.lookup_default {} (provider_aliases st) alias))
          (output_lines @ [[]] @ [''PROVIDER '' @ alias @ '':''])"

text \<open>\<^verbatim>\<open>output_lines\<close> as \<^verbatim>\<open>generate_output\<close> builds it.\<close>

definition output_lines :: "tfdeps \<Rightarrow> string list" where
  "output_lines st =
     (let ls = [''/*''] @ [''MODULES:''];
          ls = fold (\<lambda>module ls. ls @ [module_line st module])
                    (sorted_list_of_set (all_modules st)) ls;
          ls = fold (provider_lines st)
                    (sorted_list_of_set (Mapping.keys (provider_aliases st))) ls
      in ls @ [''*/''])"

text \<open>
  \<^verbatim>\<open>generate_output\<close>: the text written to \<^verbatim>\<open>dependencies.txt\<close>, if the file can be
  written, and the message.
\<close>

definition generate_output :: "env \<Rightarrow> tfdeps \<Rightarrow> string option \<times> message list" where
  "generate_output e st =
     (if writable e then (Some (join [newline] (output_lines st)), [Generated])
      else (None, [WriteError]))"

text \<open>
  What a run leaves behind: the exit status, the messages, the text of the report file if
  one was written, and the analyzer.
\<close>

record outcome =
  status :: nat
  printed :: "message list"
  report :: "string option"
  final :: tfdeps

definition run :: "schedule \<Rightarrow> env \<Rightarrow> outcome" where
  "run sch e =
     (let (dir, msgs1) = extract_modules_dir e;
          st = init\<lparr>modules_dir := dir\<rparr>
      in if dir = None \<or> dir = Some [] then
           \<lparr>status = 1, printed = msgs1, report = None, final = st\<rparr>
         else (let (modules, st1, msgs2) = scan_modules sch e st
               in if modules = [] then
                    \<lparr>status = 1, printed = msgs1 @ msgs2 @ [NoModulesFound],
                     report = None, final = st1\<rparr>
                  else (let st2 = fold (analyze_module sch e) modules st1;
                            (written, msgs3) = generate_output e st2
                        in \<lparr>status = 0, printed = msgs1 @ msgs2 @ msgs3,
                            report = written, final = st2\<rparr>)))"

definition main :: "schedule \<Rightarrow> env \<Rightarrow> outcome" where
  "main sch e =
     (if hcl_file e = NoFile then
        \<lparr>status = 1, printed = [HclNotFound], report = None, final = init\<rparr>
      else run sch e)"

subsection \<open>The scenario of the specification\<close>

text \<open>
  A root directory with the modules \<^verbatim>\<open>a\<close>, whose one file declares \<^verbatim>\<open>module "b" {}\<close>
  and a data block locally named \<^verbatim>\<open>inner_db\<close>, and \<^verbatim>\<open>b\<close>, which is empty; and two
  schedules.
\<close>

definition module_a :: "fnode dir" where
  \<open>module_a =
     \<lparr>listable = True,
      entries = [(''main.tf'',
                  File (Some ''module "b" {}\<newline>data "aws_db_instance" "inner_db" {}\<newline>''))]\<rparr>\<close>

definition module_b :: "fnode dir" where
  "module_b = \<lparr>listable = True, entries = []\<rparr>"

definition scenario :: env where
  \<open>scenario =
     \<lparr>hcl_file = Content ''/* modules_dir: modules */'',
      resolve = (\<lambda>path. ''/work/'' @ path),
      fs = (\<lambda>path. if path = ''/work/modules''
                    then Directory \<lparr>listable = True,
                                    entries = [(''b'', Subdir module_b), (''a'', Subdir module_a)]\<rparr>
                    else Missing),
      writable = True\<rparr>\<close>

text \<open>
  A second root directory: the module \<^verbatim>\<open>inner_vpc\<close> refers to itself, by a
  \<^verbatim>\<open>module\<close> block and by the name of a data block, and to \<^verbatim>\<open>b\<close>; it declares the
  alias \<^verbatim>\<open>east\<close> in its \<^verbatim>\<open>provider.tf\<close>, and \<^verbatim>\<open>b\<close> declares it in its
  \<^verbatim>\<open>versions.tf\<close>. A file and a hidden directory lie beside the two modules.
\<close>

definition module_inner_vpc :: "fnode dir" where
  \<open>module_inner_vpc =
     \<lparr>listable = True,
      entries =
        [(''main.tf'',
          File (Some ''module "inner_vpc" {}\<newline>module "b" {}\<newline>data "aws_vpc" "inner_net" {}\<newline>'')),
         (''provider.tf'', File (Some ''provider "aws" {\<newline>  alias = "east"\<newline>}\<newline>''))]\<rparr>\<close>

definition module_east_b :: "fnode dir" where
  \<open>module_east_b =
     \<lparr>listable = True,
      entries = [(''versions.tf'', File (Some ''provider "aws" { alias = "east" }''))]\<rparr>\<close>

definition registry_root :: "rnode dir" where
  "registry_root =
     \<lparr>listable = True,
      entries = [(''inner_vpc'', Subdir module_inner_vpc), (''README.md'', Other),
                 (''.git'', Subdir \<lparr>listable = True, entries = []\<rparr>),
                 (''b'', Subdir module_east_b)]\<rparr>"

definition registry :: env where
  \<open>registry =
     \<lparr>hcl_file = Content ''/* modules_dir: modules */'',
      resolve = (\<lambda>path. ''/work/'' @ path),
      fs = (\<lambda>path. if path = ''/work/modules'' then Directory registry_root else Missing),
      writable = True\<rparr>\<close>

definition forwards :: schedule where
  "forwards = \<lparr>set_order = sorted_list_of_set, listing_order = (\<lambda>names. names)\<rparr>"

definition backwards :: schedule where
  "backwards = \<lparr>set_order = (\<lambda>s. rev (sorted_list_of_set s)), listing_order = rev\<rparr>"

subsection \<open>The inference rules as the specification words them\<close>

text \<open>
  A name \<^emph>\<open>contains\<close> a substring when the substring occurs somewhere in it; the prefix
  of a name is the text preceding the \<^emph>\<open>first\<close> occurrence of \<^verbatim>\<open>_vpc\<close>.
\<close>

definition spec_occurs :: "string \<Rightarrow> string \<Rightarrow> bool" where
  "spec_occurs sub name \<longleftrightarrow> (\<exists>pre post. name = pre @ sub @ post)"

definition spec_prefix :: "string \<Rightarrow> string \<Rightarrow> bool" where
  "spec_prefix name p \<longleftrightarrow>
     (\<exists>post. name = p @ ''_vpc'' @ post) \<and>
     (\<forall>p' post'. name = p' @ ''_vpc'' @ post' \<longrightarrow> length p \<le> length p')"

definition spec_infers :: "string \<Rightarrow> string option \<Rightarrow> bool" where
  "spec_infers name r \<longleftrightarrow>
     (if spec_occurs ''_vpc'' name then
        (if spec_occurs ''inner'' name then r = Some ''inner_vpc''
         else if spec_occurs ''outer'' name then r = Some ''outer_vpc''
         else (\<exists>p. spec_prefix name p \<and> r = (if p \<noteq> [] then Some (p @ ''_vpc'') else None)))
      else if spec_occurs ''inner'' name then r = Some ''inner_vpc''
      else if spec_occurs ''outer'' name then r = Some ''outer_vpc''
      else r = None)"

subsection \<open>The report as the specification words it\<close>

text \<open>
  One line per module: \<^verbatim>\<open>- {module}\<close> when its dependency set is empty, else
  \<^verbatim>\<open>- {module} (depends_on: {sorted comma-joined dependency list})\<close>.
\<close>

definition spec_module_line :: "string \<Rightarrow> string set \<Rightarrow> string" where
  "spec_module_line module deps =
     (if deps = {} then ''- '' @ module
      else ''- '' @ module @ '' (depends_on: '' @ join '', '' (sorted_list_of_set deps) @ '')'')"

text \<open>
  For one alias: a blank line, the \<^verbatim>\<open>PROVIDER {alias}:\<close> line, and one \<^verbatim>\<open>- {module}\<close>
  line per declaring module in sorted order.
\<close>

definition spec_provider_section :: "string \<Rightarrow> string set \<Rightarrow> string list" where
  "spec_provider_section alias declaring =
     [[], ''PROVIDER '' @ alias @ '':''] @ map (\<lambda>module. ''- '' @ module) (sorted_list_of_set declaring)"

text \<open>
  The whole report, for a module universe, the dependency set of each module, the set of
  aliases and the declaring set of each alias.
\<close>

definition spec_report ::
  "string set \<Rightarrow> (string \<Rightarrow> string set) \<Rightarrow> string set \<Rightarrow> (string \<Rightarrow> string set) \<Rightarrow> string list" where
  "spec_report universe deps aliases declaring =
     [''/*'', ''MODULES:''] @
     map (\<lambda>module. spec_module_line module (deps module)) (sorted_list_of_set universe) @
     concat (map (\<lambda>alias. spec_provider_section alias (declaring alias))
                 (sorted_list_of_set aliases)) @
     [''*/'']"

subsection \<open>Comments in a text\<close>

text \<open>
  Every \<^verbatim>\<open>/*\<close> of \<open>pre\<close> that the block pass meets is closed by a \<^verbatim>\<open>*/\<close> within
  \<open>pre\<close>: the block pass leaves no \<^verbatim>\<open>/*\<close> behind. A text that follows such a \<open>pre\<close>
  starts outside every block comment.
\<close>

definition closed_before :: "string \<Rightarrow> bool" where
  "closed_before pre \<longleftrightarrow> \<not> contains (strip_block pre) ''/*''"

text \<open>A module directory with one declaration file.\<close>

definition single_file :: "string \<Rightarrow> fnode dir" where
  "single_file content = \<lparr>listable = True, entries = [(''main.tf'', File (Some content))]\<rparr>"

section \<open>Properties\<close>

subsection \<open>Substring search\<close>

lemma startswith_iff: "startswith s p \<longleftrightarrow> (\<exists>post. s = p @ post)"
proof
  assume "startswith s p"
  then have "s = p @ drop (length p) s"
    unfolding startswith_def by (metis append_take_drop_id)
  then show "\<exists>post. s = p @ post" ..
next
  assume "\<exists>post. s = p @ post"
  then show "startswith s p"
    unfolding startswith_def by auto
qed

lemma contains_iff: "contains s sub \<longleftrightarrow> (\<exists>pre post. s = pre @ sub @ post)"
proof (induction s)
  case Nil
  show ?case by auto
next
  case (Cons c cs)
  show ?case
  proof
    assume "contains (c # cs) sub"
    then consider "startswith (c # cs) sub" | "contains cs sub" by auto
    then show "\<exists>pre post. c # cs = pre @ sub @ post"
    proof cases
      case 1
      then obtain post where "c # cs = sub @ post" using startswith_iff by blast
      then have "c # cs = [] @ sub @ post" by simp
      then show ?thesis by blast
    next
      case 2
      then obtain pre post where "cs = pre @ sub @ post" using Cons.IH by blast
      then have "c # cs = (c # pre) @ sub @ post" by simp
      then show ?thesis by blast
    qed
  next
    assume "\<exists>pre post. c # cs = pre @ sub @ post"
    then obtain pre post where eq: "c # cs = pre @ sub @ post" by blast
    show "contains (c # cs) sub"
    proof (cases pre)
      case Nil
      with eq have "startswith (c # cs) sub" using startswith_iff by auto
      then show ?thesis by simp
    next
      case (Cons d pre')
      with eq have "cs = pre' @ sub @ post" by simp
      then have "contains cs sub" using Cons.IH by blast
      then show ?thesis by simp
    qed
  qed
qed

lemma contains_spec_occurs: "contains name sub \<longleftrightarrow> spec_occurs sub name"
  by (simp add: contains_iff spec_occurs_def)

lemma split_head_decomp:
  "contains s sep \<Longrightarrow> \<exists>post. s = split_head s sep @ sep @ post"
proof (induction s)
  case Nil
  then show ?case by simp
next
  case (Cons c cs)
  show ?case
  proof (cases "startswith (c # cs) sep")
    case True
    then show ?thesis using startswith_iff by auto
  next
    case False
    with Cons.prems have "contains cs sep" by simp
    then obtain post where "cs = split_head cs sep @ sep @ post" using Cons.IH by blast
    with False show ?thesis by auto
  qed
qed

lemma split_head_first:
  "sep \<noteq> [] \<Longrightarrow> s = p @ sep @ post \<Longrightarrow> length (split_head s sep) \<le> length p"
proof (induction s arbitrary: p)
  case Nil
  then show ?case by simp
next
  case (Cons c cs)
  show ?case
  proof (cases "startswith (c # cs) sep")
    case True
    then show ?thesis by simp
  next
    case False
    show ?thesis
    proof (cases p)
      case Nil
      with Cons.prems have "startswith (c # cs) sep" using startswith_iff by auto
      with False show ?thesis by simp
    next
      case (Cons d p')
      with Cons.prems have "cs = p' @ sep @ post" by simp
      then have "length (split_head cs sep) \<le> length p'"
        using Cons.IH Cons.prems(1) by blast
      with False Cons show ?thesis by simp
    qed
  qed
qed

lemma spec_prefix_iff:
  "spec_prefix name p \<longleftrightarrow> contains name ''_vpc'' \<and> p = split_head name ''_vpc''"
proof
  assume sp: "spec_prefix name p"
  then obtain post where eq: "name = p @ ''_vpc'' @ post"
    unfolding spec_prefix_def by blast
  then have c: "contains name ''_vpc''" using contains_iff by blast
  then obtain post' where eq': "name = split_head name ''_vpc'' @ ''_vpc'' @ post'"
    using split_head_decomp by blast
  from sp eq' have "length p \<le> length (split_head name ''_vpc'')"
    unfolding spec_prefix_def by blast
  moreover have "length (split_head name ''_vpc'') \<le> length p"
    using split_head_first [OF _ eq] by simp
  ultimately have "length p = length (split_head name ''_vpc'')" by simp
  with eq eq' have "p = split_head name ''_vpc''"
    by (metis append_eq_append_conv)
  with c show "contains name ''_vpc'' \<and> p = split_head name ''_vpc''" by simp
next
  assume a: "contains name ''_vpc'' \<and> p = split_head name ''_vpc''"
  then obtain post where "name = p @ ''_vpc'' @ post"
    using split_head_decomp by blast
  moreover have "\<forall>p' post'. name = p' @ ''_vpc'' @ post' \<longrightarrow> length p \<le> length p'"
    using a split_head_first [of "''_vpc''" name] by simp
  ultimately show "spec_prefix name p"
    unfolding spec_prefix_def by blast
qed

lemma spec_infers_iff: "spec_infers name r \<longleftrightarrow> infer_module_name name = r"
  unfolding spec_infers_def infer_module_name_def Let_def
  by (auto simp: contains_spec_occurs [symmetric] spec_prefix_iff)




subsection \<open>What the extractors return\<close>

lemma infer_module_name_shape:
  "infer_module_name name = Some m \<Longrightarrow>
     m = ''inner_vpc'' \<or> m = ''outer_vpc'' \<or> (\<exists>prefix. prefix \<noteq> [] \<and> m = prefix @ ''_vpc'')"
  unfolding infer_module_name_def Let_def by (auto split: if_splits)

lemma infer_module_name_nonempty: "infer_module_name name = Some m \<Longrightarrow> m \<noteq> []"
  using infer_module_name_shape by fastforce

lemma fold_add_inferred:
  "fold add_inferred names deps = deps \<union> {m. \<exists>name\<in>set names. infer_module_name name = Some m}"
proof (induction names arbitrary: deps)
  case Nil
  show ?case by simp
next
  case (Cons n ns)
  show ?case
  proof (cases "infer_module_name n")
    case None
    then show ?thesis using Cons.IH by (auto simp: add_inferred_def)
  next
    case (Some m)
    then have "m \<noteq> []" by (rule infer_module_name_nonempty)
    with Some show ?thesis using Cons.IH by (auto simp: add_inferred_def)
  qed
qed

lemma fold_concat_map:
  "fold (\<lambda>x acc. fold f (g x) acc) xs acc = fold f (concat (map g xs)) acc"
  by (induction xs arbitrary: acc) simp_all

lemma fold_union_concat:
  "fold (\<lambda>x acc. acc \<union> set (g x)) xs acc = acc \<union> set (concat (map g xs))"
  by (induction xs arbitrary: acc) auto

lemma set_tf_files:
  "valid_schedule sch \<Longrightarrow>
     set (tf_files sch d) = {f \<in> fst ` set (entries d). endswith f ''.tf''}"
proof -
  assume "valid_schedule sch"
  then have "set (listdir sch d) = set (map fst (entries d))"
    unfolding listdir_def valid_schedule_def by (metis mset_eq_setD)
  then show ?thesis by (auto simp: tf_files_def)
qed

lemma set_tf_texts:
  "set (tf_texts d) =
     {remove_comments content |f content.
        f \<in> fst ` set (entries d) \<and> endswith f ''.tf'' \<and> read_file d f = Some content}"
proof -
  have "(a, b) \<in> set (entries d) \<Longrightarrow> a \<in> fst ` set (entries d)" for a b
    by force
  then show ?thesis
    unfolding tf_texts_def by (fastforce split: option.splits)
qed

lemma implicit_step:
  "(\<lambda>tf_file dependencies.
       case read_file d tf_file of
         Some content \<Rightarrow>
           fold add_inferred (findall match_data (remove_comments content)) dependencies
       | None \<Rightarrow> dependencies)
   = (\<lambda>x acc. fold add_inferred
        (case read_file d x of
           Some content \<Rightarrow> findall match_data (remove_comments content)
         | None \<Rightarrow> []) acc)"
  by (auto simp: fun_eq_iff split: option.splits)

lemma explicit_step:
  "(\<lambda>tf_file dependencies.
       case read_file d tf_file of
         Some content \<Rightarrow> dependencies \<union> set (findall match_module (remove_comments content))
       | None \<Rightarrow> dependencies)
   = (\<lambda>x acc. acc \<union> set
        (case read_file d x of
           Some content \<Rightarrow> findall match_module (remove_comments content)
         | None \<Rightarrow> []))"
  by (auto simp: fun_eq_iff split: option.splits)

lemma set_blocks_of_files:
  assumes "valid_schedule sch"
  shows "set (concat (map (\<lambda>x. case read_file d x of
                                  Some content \<Rightarrow> findall m (remove_comments content)
                                | None \<Rightarrow> []) (tf_files sch d)))
         = set (concat (map (findall m) (tf_texts d)))"
proof -
  let ?names = "{f \<in> fst ` set (entries d). endswith f ''.tf''}"
  have "set (concat (map (\<lambda>x. case read_file d x of
                                  Some content \<Rightarrow> findall m (remove_comments content)
                                | None \<Rightarrow> []) (tf_files sch d)))
        = (\<Union>f\<in>?names. case read_file d f of
                             Some content \<Rightarrow> set (findall m (remove_comments content))
                           | None \<Rightarrow> {})"
    unfolding set_concat set_map set_tf_files [OF assms] image_image
    by (rule SUP_cong) (auto split: option.splits)
  also have "\<dots> = (\<Union>t\<in>set (tf_texts d). set (findall m t))"
    unfolding set_tf_texts by (fastforce split: option.splits)
  also have "\<dots> = set (concat (map (findall m) (tf_texts d)))"
    by simp
  finally show ?thesis .
qed

lemma extract_explicit_dependencies_eq:
  assumes "valid_schedule sch"
  shows "extract_explicit_dependencies sch d = (if listable d then set (module_blocks d) else {})"
  unfolding extract_explicit_dependencies_def module_blocks_def
  by (subst explicit_step, subst fold_union_concat, subst set_blocks_of_files [OF assms]) simp

lemma extract_implicit_dependencies_eq:
  assumes "valid_schedule sch"
  shows "extract_implicit_dependencies sch d =
     (if listable d then {m. \<exists>name\<in>set (data_blocks d). infer_module_name name = Some m} else {})"
  unfolding extract_implicit_dependencies_def data_blocks_def
  by (subst implicit_step, subst fold_concat_map, subst fold_add_inferred,
      subst set_blocks_of_files [OF assms]) simp

lemma finite_extract_explicit:
  "valid_schedule sch \<Longrightarrow> finite (extract_explicit_dependencies sch d)"
  by (simp add: extract_explicit_dependencies_eq)

lemma finite_extract_implicit:
  assumes "valid_schedule sch"
  shows "finite (extract_implicit_dependencies sch d)"
proof -
  have "{m. \<exists>name\<in>set (data_blocks d). infer_module_name name = Some m}
          \<subseteq> the ` infer_module_name ` set (data_blocks d)"
    by force
  then have "finite {m. \<exists>name\<in>set (data_blocks d). infer_module_name name = Some m}"
    by (rule finite_subset) simp
  then show ?thesis by (simp add: extract_implicit_dependencies_eq [OF assms])
qed

lemma finite_extract_provider_aliases: "finite (extract_provider_aliases d)"
  unfolding extract_provider_aliases_def by (simp split: option.splits)

lemma valid_forwards: "valid_schedule forwards"
  by (simp add: valid_schedule_def forwards_def)

lemma valid_backwards: "valid_schedule backwards"
  by (simp add: valid_schedule_def backwards_def)

lemma endswith_append: "endswith (p @ s) s"
  by (simp add: endswith_def)

subsection \<open>The aggregation\<close>

lemma lookup_by_keys:
  "Mapping.lookup m k = (if k \<in> Mapping.keys m then Some (Mapping.lookup_default d m k) else None)"
  by (auto simp: keys_dom_lookup lookup_default_def domIff split: option.splits)

lemma mapping_eq_by_keys:
  assumes "Mapping.keys m = Mapping.keys m'"
    and "\<And>k. Mapping.lookup_default {} m k = Mapping.lookup_default {} m' k"
  shows "m = m'"
proof (rule mapping_eqI)
  fix k
  show "Mapping.lookup m k = Mapping.lookup m' k"
    using assms by (simp add: lookup_by_keys [where d = "{}"])
qed

lemma keys_add_member: "Mapping.keys (add_member k v d) = insert k (Mapping.keys d)"
  by (simp add: add_member_def)

lemma default_add_member:
  "Mapping.lookup_default {} (add_member k v d) k' =
     (if k' = k then insert v (Mapping.lookup_default {} d k) else Mapping.lookup_default {} d k')"
  by (simp add: add_member_def lookup_default_update')

lemma fold_aliases_state:
  "fold (\<lambda>alias s. s\<lparr>provider_aliases := add_member alias n (provider_aliases s)\<rparr>) xs st
   = st\<lparr>provider_aliases := fold (\<lambda>alias. add_member alias n) xs (provider_aliases st)\<rparr>"
  by (induction xs arbitrary: st) simp_all

lemma fold_deps_state:
  "fold (\<lambda>dep s. s\<lparr>dependencies := add_member n dep (dependencies s)\<rparr>) xs st
   = st\<lparr>dependencies := fold (add_member n) xs (dependencies st)\<rparr>"
  by (induction xs arbitrary: st) simp_all

lemma keys_fold_aliases:
  "Mapping.keys (fold (\<lambda>alias. add_member alias n) xs m) = Mapping.keys m \<union> set xs"
  by (induction xs arbitrary: m) (auto simp: keys_add_member)

lemma default_fold_aliases:
  "Mapping.lookup_default {} (fold (\<lambda>alias. add_member alias n) xs m) k =
     Mapping.lookup_default {} m k \<union> (if k \<in> set xs then {n} else {})"
  by (induction xs arbitrary: m) (auto simp: default_add_member)

lemma keys_fold_deps:
  "Mapping.keys (fold (add_member n) xs m) = Mapping.keys m \<union> (if xs = [] then {} else {n})"
  by (induction xs arbitrary: m) (auto simp: keys_add_member)

lemma default_fold_deps:
  "Mapping.lookup_default {} (fold (add_member n) xs m) k =
     Mapping.lookup_default {} m k \<union> (if k = n then set xs else {})"
  by (induction xs arbitrary: m) (auto simp: default_add_member)

lemma module_path_cong:
  "modules_dir st' = modules_dir st \<Longrightarrow> module_path e st' n = module_path e st n"
  by (simp add: module_path_def)

lemma module_aliases_cong:
  "modules_dir st' = modules_dir st \<Longrightarrow> module_aliases e st' n = module_aliases e st n"
  unfolding module_aliases_def by (drule module_path_cong [of st' st e n]) simp

lemma all_deps_cong:
  "modules_dir st' = modules_dir st \<Longrightarrow> all_deps sch e st' n = all_deps sch e st n"
  unfolding all_deps_def by (drule module_path_cong [of st' st e n]) simp

lemma finite_module_aliases: "finite (module_aliases e st n)"
  by (simp add: module_aliases_def finite_extract_provider_aliases)

lemma finite_all_deps: "valid_schedule sch \<Longrightarrow> finite (all_deps sch e st n)"
  by (simp add: all_deps_def finite_extract_explicit finite_extract_implicit)

lemma set_set_order: "valid_schedule sch \<Longrightarrow> finite s \<Longrightarrow> set (set_order sch s) = s"
  by (simp add: valid_schedule_def)

lemma analyze_module_eq:
  "analyze_module sch e n st =
     st\<lparr>provider_aliases :=
          fold (\<lambda>alias. add_member alias n) (set_order sch (module_aliases e st n))
               (provider_aliases st),
        dependencies :=
          fold (add_member n) (set_order sch (all_deps sch e st n)) (dependencies st)\<rparr>"
  unfolding analyze_module_def Let_def module_aliases_def all_deps_def
  by (simp add: fold_aliases_state fold_deps_state)

lemma analyze_module_fields:
  assumes "valid_schedule sch"
  shows "modules_dir (analyze_module sch e n st) = modules_dir st"
    and "all_modules (analyze_module sch e n st) = all_modules st"
    and "Mapping.keys (provider_aliases (analyze_module sch e n st)) =
           Mapping.keys (provider_aliases st) \<union> module_aliases e st n"
    and "Mapping.lookup_default {} (provider_aliases (analyze_module sch e n st)) a =
           Mapping.lookup_default {} (provider_aliases st) a \<union>
           (if a \<in> module_aliases e st n then {n} else {})"
    and "Mapping.keys (dependencies (analyze_module sch e n st)) =
           Mapping.keys (dependencies st) \<union> (if all_deps sch e st n = {} then {} else {n})"
    and "Mapping.lookup_default {} (dependencies (analyze_module sch e n st)) k =
           Mapping.lookup_default {} (dependencies st) k \<union>
           (if k = n then all_deps sch e st n else {})"
proof -
  have a: "set (set_order sch (module_aliases e st n)) = module_aliases e st n"
    using assms finite_module_aliases by (rule set_set_order)
  have d: "set (set_order sch (all_deps sch e st n)) = all_deps sch e st n"
    using assms finite_all_deps [OF assms] by (rule set_set_order)
  then have d': "set_order sch (all_deps sch e st n) = [] \<longleftrightarrow> all_deps sch e st n = {}"
    by (metis set_empty)
  show "modules_dir (analyze_module sch e n st) = modules_dir st"
    and "all_modules (analyze_module sch e n st) = all_modules st"
    by (simp_all add: analyze_module_eq)
  show "Mapping.keys (provider_aliases (analyze_module sch e n st)) =
           Mapping.keys (provider_aliases st) \<union> module_aliases e st n"
    by (simp add: analyze_module_eq keys_fold_aliases a)
  show "Mapping.lookup_default {} (provider_aliases (analyze_module sch e n st)) a =
           Mapping.lookup_default {} (provider_aliases st) a \<union>
           (if a \<in> module_aliases e st n then {n} else {})"
    by (simp add: analyze_module_eq default_fold_aliases a)
  show "Mapping.keys (dependencies (analyze_module sch e n st)) =
           Mapping.keys (dependencies st) \<union> (if all_deps sch e st n = {} then {} else {n})"
    by (simp add: analyze_module_eq keys_fold_deps d')
  show "Mapping.lookup_default {} (dependencies (analyze_module sch e n st)) k =
           Mapping.lookup_default {} (dependencies st) k \<union>
           (if k = n then all_deps sch e st n else {})"
    by (simp add: analyze_module_eq default_fold_deps d)
qed

lemma analysis_fields:
  assumes "valid_schedule sch"
  shows "modules_dir (fold (analyze_module sch e) ms st) = modules_dir st \<and>
         all_modules (fold (analyze_module sch e) ms st) = all_modules st \<and>
         Mapping.keys (provider_aliases (fold (analyze_module sch e) ms st)) =
           Mapping.keys (provider_aliases st) \<union> (\<Union>n\<in>set ms. module_aliases e st n) \<and>
         (\<forall>a. Mapping.lookup_default {} (provider_aliases (fold (analyze_module sch e) ms st)) a =
           Mapping.lookup_default {} (provider_aliases st) a \<union>
           {n \<in> set ms. a \<in> module_aliases e st n}) \<and>
         Mapping.keys (dependencies (fold (analyze_module sch e) ms st)) =
           Mapping.keys (dependencies st) \<union> {n \<in> set ms. all_deps sch e st n \<noteq> {}} \<and>
         (\<forall>k. Mapping.lookup_default {} (dependencies (fold (analyze_module sch e) ms st)) k =
           Mapping.lookup_default {} (dependencies st) k \<union>
           (if k \<in> set ms then all_deps sch e st k else {}))"
proof (induction ms arbitrary: st)
  case Nil
  show ?case by simp
next
  case (Cons n ms)
  let ?st1 = "analyze_module sch e n st"
  note f = analyze_module_fields [OF assms, of e n st]
  have dir: "modules_dir ?st1 = modules_dir st" by (rule f(1))
  note al = module_aliases_cong [OF dir, of e] and ad = all_deps_cong [OF dir, of sch e]
  note IH = Cons.IH [of ?st1, unfolded al ad]
  have "fold (analyze_module sch e) (n # ms) st = fold (analyze_module sch e) ms ?st1"
    by simp
  then show ?case
    using IH by (auto simp: f)
qed

subsection \<open>The analyzer after a run\<close>

lemma scan_modules_state:
  "scan_modules sch e st = (ms, st1, msgs) \<Longrightarrow> st1 = st\<lparr>all_modules := all_modules st \<union> set ms\<rparr>"
  unfolding scan_modules_def Let_def
  by (auto split: option.splits if_splits root.splits)

lemma run_unfold:
  assumes "extract_modules_dir e = (dir, msgs1)"
    and "scan_modules sch e (init\<lparr>modules_dir := dir\<rparr>) = (ms, st1, msgs2)"
  shows "run sch e =
     (if dir = None \<or> dir = Some [] then
        \<lparr>status = 1, printed = msgs1, report = None, final = init\<lparr>modules_dir := dir\<rparr>\<rparr>
      else if ms = [] then
        \<lparr>status = 1, printed = msgs1 @ msgs2 @ [NoModulesFound], report = None, final = st1\<rparr>
      else
        \<lparr>status = 0,
         printed = msgs1 @ msgs2 @ snd (generate_output e (fold (analyze_module sch e) ms st1)),
         report = fst (generate_output e (fold (analyze_module sch e) ms st1)),
         final = fold (analyze_module sch e) ms st1\<rparr>)"
  using assms by (simp add: run_def Let_def split: prod.splits)

lemma run_final:
  "\<exists>ms. final (run sch e) =
         fold (analyze_module sch e) ms
           (init\<lparr>modules_dir := fst (extract_modules_dir e), all_modules := set ms\<rparr>)"
proof -
  obtain dir msgs1 where ex: "extract_modules_dir e = (dir, msgs1)"
    by (cases "extract_modules_dir e")
  let ?st = "init\<lparr>modules_dir := dir\<rparr>"
  obtain ms st1 msgs2 where sc: "scan_modules sch e ?st = (ms, st1, msgs2)"
    by (cases "scan_modules sch e ?st")
  have st1: "st1 = init\<lparr>modules_dir := dir, all_modules := set ms\<rparr>"
    using scan_modules_state [OF sc] by (simp add: init_def)
  have empty: "?st = init\<lparr>modules_dir := dir, all_modules := set []\<rparr>"
    by (simp add: init_def)
  show ?thesis
  proof (cases "dir = None \<or> dir = Some []")
    case True
    then have "final (run sch e) = ?st"
      by (auto simp: run_unfold [OF ex sc])
    with empty have "final (run sch e) =
        fold (analyze_module sch e) [] (init\<lparr>modules_dir := dir, all_modules := set []\<rparr>)"
      by simp
    then show ?thesis unfolding ex fst_conv by (rule exI)
  next
    case False
    show ?thesis
    proof (cases "ms = []")
      case True
      with False have "final (run sch e) = st1"
        by (auto simp: run_unfold [OF ex sc])
      with st1 True have "final (run sch e) =
          fold (analyze_module sch e) [] (init\<lparr>modules_dir := dir, all_modules := set []\<rparr>)"
        by simp
      then show ?thesis unfolding ex fst_conv by (rule exI)
    next
      case nonempty: False
      with False have "final (run sch e) = fold (analyze_module sch e) ms st1"
        by (auto simp: run_unfold [OF ex sc])
      with st1 show ?thesis unfolding ex fst_conv by blast
    qed
  qed
qed

lemma depends_on_default:
  "depends_on st m = sorted_list_of_set (Mapping.lookup_default {} (dependencies st) m)"
  by (simp add: depends_on_def lookup_default_def split: option.splits)

lemma final_fields:
  fixes sch :: schedule and e :: env
  defines "F \<equiv> final (run sch e)"
  assumes valid: "valid_schedule sch"
  shows "finite (all_modules F)"
    and "Mapping.lookup_default {} (dependencies F) k =
           (if k \<in> all_modules F then all_deps sch e F k else {})"
    and "Mapping.keys (dependencies F) = {n \<in> all_modules F. all_deps sch e F n \<noteq> {}}"
    and "Mapping.lookup_default {} (provider_aliases F) a =
           {n \<in> all_modules F. a \<in> module_aliases e F n}"
    and "Mapping.keys (provider_aliases F) = (\<Union>n\<in>all_modules F. module_aliases e F n)"
proof -
  obtain ms where ms: "F = fold (analyze_module sch e) ms
      (init\<lparr>modules_dir := fst (extract_modules_dir e), all_modules := set ms\<rparr>)"
    unfolding F_def using run_final by blast
  define st0 where "st0 = init\<lparr>modules_dir := fst (extract_modules_dir e), all_modules := set ms\<rparr>"
  note fields = analysis_fields [OF valid, of e ms st0, folded ms [folded st0_def]]
  have dir: "modules_dir st0 = modules_dir F" using fields by simp
  note al = module_aliases_cong [OF dir, of e] and ad = all_deps_cong [OF dir, of sch e]
  have start: "all_modules st0 = set ms" "Mapping.keys (dependencies st0) = {}"
    "Mapping.keys (provider_aliases st0) = {}"
    "\<And>k. Mapping.lookup_default {} (dependencies st0) k = {}"
    "\<And>k. Mapping.lookup_default {} (provider_aliases st0) k = {}"
    by (simp_all add: st0_def init_def lookup_default_empty)
  have um: "all_modules F = set ms" using fields start by simp
  show "finite (all_modules F)" by (simp add: um)
  show "Mapping.lookup_default {} (dependencies F) k =
           (if k \<in> all_modules F then all_deps sch e F k else {})"
    using fields by (simp add: start um al ad)
  show "Mapping.keys (dependencies F) = {n \<in> all_modules F. all_deps sch e F n \<noteq> {}}"
    using fields by (simp add: start um al ad)
  show "Mapping.lookup_default {} (provider_aliases F) a =
           {n \<in> all_modules F. a \<in> module_aliases e F n}"
    using fields by (simp add: start um al ad)
  show "Mapping.keys (provider_aliases F) = (\<Union>n\<in>all_modules F. module_aliases e F n)"
    using fields by (simp add: start um al ad)
qed
subsection \<open>Naming-pattern inference\<close>

text \<open>
  Claim C1. For every data-block local name the inference follows the precedence rules
  of the specification, first match wins: with \<^verbatim>\<open>_vpc\<close> in the name, \<^verbatim>\<open>inner\<close> gives
  \<^verbatim>\<open>inner_vpc\<close>, else \<^verbatim>\<open>outer\<close> gives \<^verbatim>\<open>outer_vpc\<close>, else the text before the first
  \<^verbatim>\<open>_vpc\<close> is the prefix and a non-empty prefix gives \<^verbatim>\<open>{prefix}_vpc\<close>, an empty one
  nothing; without \<^verbatim>\<open>_vpc\<close>, \<^verbatim>\<open>inner\<close> gives \<^verbatim>\<open>inner_vpc\<close>, else \<^verbatim>\<open>outer\<close> gives
  \<^verbatim>\<open>outer_vpc\<close>, else nothing. The value the source computes for a name is the one the
  rules allow, the implicit dependencies of a module directory are the names so inferred
  from its data blocks, and the four examples of the specification come out as stated.
\<close>

theorem inference_follows_precedence_rules:
  "(spec_infers name r \<longleftrightarrow> infer_module_name name = r) \<and>
   (valid_schedule sch \<longrightarrow>
      extract_implicit_dependencies sch d =
        (if listable d then {m. \<exists>name\<in>set (data_blocks d). spec_infers name (Some m)}
         else {})) \<and>
   infer_module_name ''app_inner_vpc_lookup'' = Some ''inner_vpc'' \<and>
   infer_module_name ''foo_vpc'' = Some ''foo_vpc'' \<and>
   infer_module_name ''_vpc'' = None \<and>
   infer_module_name ''outer_net'' = Some ''outer_vpc''"
proof -
  have examples:
    "infer_module_name ''app_inner_vpc_lookup'' = Some ''inner_vpc''"
    "infer_module_name ''foo_vpc'' = Some ''foo_vpc''"
    "infer_module_name ''_vpc'' = None"
    "infer_module_name ''outer_net'' = Some ''outer_vpc''"
    by (simp_all add: infer_module_name_def startswith_def)
  show ?thesis
    by (simp add: spec_infers_iff extract_implicit_dependencies_eq examples)
qed

theorem inference_follows_precedence_rules_witness:
  "spec_infers ''foo_vpc'' (Some ''foo_vpc'') \<and> spec_infers ''_vpc'' None \<and>
   extract_implicit_dependencies forwards module_a = {m. spec_infers ''inner_db'' (Some m)}"
proof -
  have inferred:
    "infer_module_name ''foo_vpc'' = Some ''foo_vpc''" "infer_module_name ''_vpc'' = None"
    by (simp_all add: infer_module_name_def startswith_def)
  have blocks: "data_blocks module_a = [''inner_db'']"
    unfolding module_a_def by code_simp
  have "listable module_a"
    by (simp add: module_a_def)
  with inferred blocks valid_forwards
    inference_follows_precedence_rules [of "''foo_vpc''" "Some ''foo_vpc''" forwards module_a]
    inference_follows_precedence_rules [of "''_vpc''" None forwards module_a]
  show ?thesis by simp
qed

text \<open>
  Claim C9. Every name that the implicit-dependency extractor returns, for every module
  directory and every text of its files, ends with \<^verbatim>\<open>_vpc\<close>: it is \<^verbatim>\<open>inner_vpc\<close>,
  \<^verbatim>\<open>outer_vpc\<close> or \<^verbatim>\<open>{prefix}_vpc\<close> with a non-empty prefix, and so never empty.
\<close>

theorem implicit_names_end_with_vpc:
  assumes "valid_schedule sch" and "m \<in> extract_implicit_dependencies sch d"
  shows "endswith m ''_vpc'' \<and> m \<noteq> [] \<and>
         (m = ''inner_vpc'' \<or> m = ''outer_vpc'' \<or>
          (\<exists>prefix. prefix \<noteq> [] \<and> m = prefix @ ''_vpc''))"
proof -
  from assms obtain name where "infer_module_name name = Some m"
    by (auto simp: extract_implicit_dependencies_eq split: if_splits)
  then have shape:
    "m = ''inner_vpc'' \<or> m = ''outer_vpc'' \<or> (\<exists>prefix. prefix \<noteq> [] \<and> m = prefix @ ''_vpc'')"
    by (rule infer_module_name_shape)
  then have "endswith m ''_vpc''"
    using endswith_append [of _ "''_vpc''"] endswith_append [of "''inner''" "''_vpc''"]
      endswith_append [of "''outer''" "''_vpc''"]
    by auto
  moreover from shape have "m \<noteq> []" by auto
  ultimately show ?thesis using shape by blast
qed

theorem implicit_names_end_with_vpc_witness:
  "valid_schedule forwards \<and>
   ''inner_vpc'' \<in> extract_implicit_dependencies forwards module_a \<and>
   endswith ''inner_vpc'' ''_vpc''"
proof -
  have member: "''inner_vpc'' \<in> extract_implicit_dependencies forwards module_a"
    unfolding module_a_def forwards_def by code_simp
  from member implicit_names_end_with_vpc [OF valid_forwards member] valid_forwards
  show ?thesis by simp
qed


subsection \<open>Scanning and running\<close>

lemma set_listdir: "valid_schedule sch \<Longrightarrow> set (listdir sch d) = set (map fst (entries d))"
  unfolding listdir_def valid_schedule_def by (metis mset_eq_setD)

lemma distinct_listdir:
  "valid_schedule sch \<Longrightarrow> distinct (map fst (entries d)) \<Longrightarrow> distinct (listdir sch d)"
  unfolding listdir_def valid_schedule_def by (metis mset_eq_imp_distinct_iff)

lemma is_dir_iff:
  "distinct (map fst (entries d)) \<Longrightarrow> is_dir d item \<longleftrightarrow> (\<exists>m. (item, Subdir m) \<in> set (entries d))"
  by (auto simp: is_dir_def split: option.splits rnode.splits dest: eq_key_imp_eq_value)

lemma module_names_iff:
  "distinct (map fst (entries d)) \<Longrightarrow>
     module_names d = {name. (\<exists>m. (name, Subdir m) \<in> set (entries d)) \<and> \<not> startswith name ''.''}"
  unfolding module_names_def by (auto simp: is_dir_iff) force

lemma finite_module_names: "finite (module_names d)"
  by (simp add: module_names_def)

lemma scan_modules_listed:
  assumes "modules_dir st = Some p" and "p \<noteq> []" and "fs e p = Directory d" and "listable d"
    and "valid_schedule sch"
  shows "set (fst (scan_modules sch e st)) = module_names d"
    and "sorted (fst (scan_modules sch e st))"
    and "fst (snd (scan_modules sch e st)) = st\<lparr>all_modules := all_modules st \<union> module_names d\<rparr>"
    and "snd (snd (scan_modules sch e st)) = []"
    and "distinct (map fst (entries d)) \<Longrightarrow>
           fst (scan_modules sch e st) = sorted_list_of_set (module_names d)"
proof -
  let ?keep = "\<lambda>item. is_dir d item \<and> \<not> startswith item ''.''"
  let ?ms = "sort (filter ?keep (sort (listdir sch d)))"
  have scan: "scan_modules sch e st =
      (?ms, st\<lparr>all_modules := all_modules st \<union> set (filter ?keep (sort (listdir sch d)))\<rparr>, [])"
    using assms(1-4) by (simp add: scan_modules_def Let_def)
  have names: "set (filter ?keep (sort (listdir sch d))) = module_names d"
    using set_listdir [OF assms(5), of d] by (auto simp: module_names_def)
  show "set (fst (scan_modules sch e st)) = module_names d"
    using names by (simp add: scan)
  show "sorted (fst (scan_modules sch e st))"
    by (simp add: scan)
  show "fst (snd (scan_modules sch e st)) = st\<lparr>all_modules := all_modules st \<union> module_names d\<rparr>"
    using names by (simp add: scan)
  show "snd (snd (scan_modules sch e st)) = []"
    by (simp add: scan)
  show "fst (scan_modules sch e st) = sorted_list_of_set (module_names d)"
    if "distinct (map fst (entries d))"
  proof -
    have "distinct ?ms"
      using distinct_listdir [OF assms(5) that] by simp
    moreover have "sorted ?ms" by simp
    moreover have "set ?ms = module_names d" using names by simp
    ultimately have "?ms = sorted_list_of_set (module_names d)"
      using sorted_list_of_set.idem_if_sorted_distinct by metis
    then show ?thesis by (simp add: scan)
  qed
qed

lemma scan_modules_invalid:
  assumes "modules_dir st = Some p" and "fs e p = Missing \<or> fs e p = NotADirectory"
  shows "scan_modules sch e st = ([], st, [InvalidModulesDir])"
  using assms by (auto simp: scan_modules_def)


lemma extract_modules_dir_messages:
  "fst (extract_modules_dir e) = Some p \<Longrightarrow> extract_modules_dir e = (Some p, [])"
  by (auto simp: extract_modules_dir_def split: hcl.splits option.splits)

lemma run_success:
  assumes dir: "fst (extract_modules_dir e) = Some p" and p: "p \<noteq> []"
    and root: "fs e p = Directory d" and listable: "listable d"
    and modules: "module_names d \<noteq> {}" and valid: "valid_schedule sch"
  shows "status (run sch e) = 0"
    and "modules_dir (final (run sch e)) = Some p"
    and "all_modules (final (run sch e)) = module_names d"
    and "report (run sch e) =
           (if writable e then Some (join [newline] (output_lines (final (run sch e)))) else None)"
    and "printed (run sch e) = (if writable e then [Generated] else [WriteError])"
proof -
  let ?st = "init\<lparr>modules_dir := Some p\<rparr>"
  have ex: "extract_modules_dir e = (Some p, [])"
    using dir by (rule extract_modules_dir_messages)
  obtain ms st1 msgs2 where sc: "scan_modules sch e ?st = (ms, st1, msgs2)"
    by (cases "scan_modules sch e ?st")
  have st: "modules_dir ?st = Some p" by simp
  note listed = scan_modules_listed [OF st p root listable valid, unfolded sc fst_conv snd_conv]
  have ms: "ms \<noteq> []" using listed(1) modules by auto
  have st1: "st1 = init\<lparr>modules_dir := Some p, all_modules := module_names d\<rparr>"
    using listed(3) by (simp add: init_def)
  have msgs2: "msgs2 = []" using listed(4) .
  note unfold = run_unfold [OF ex sc]
  note fields = analysis_fields [OF valid, of e ms st1]
  show "status (run sch e) = 0"
    using ms p by (simp add: unfold)
  show "modules_dir (final (run sch e)) = Some p"
    using ms p fields by (simp add: unfold st1)
  show "all_modules (final (run sch e)) = module_names d"
    using ms p fields by (simp add: unfold st1)
  show "report (run sch e) =
           (if writable e then Some (join [newline] (output_lines (final (run sch e)))) else None)"
    using ms p by (simp add: unfold generate_output_def)
  show "printed (run sch e) = (if writable e then [Generated] else [WriteError])"
    using ms p msgs2 by (simp add: unfold generate_output_def)
qed


lemma run_no_modules:
  assumes dir: "fst (extract_modules_dir e) = Some p"
    and scan: "fst (scan_modules sch e (init\<lparr>modules_dir := Some p\<rparr>)) = []"
  shows "status (run sch e) = 1" and "report (run sch e) = None"
    and "p \<noteq> [] \<Longrightarrow> printed (run sch e) =
           snd (snd (scan_modules sch e (init\<lparr>modules_dir := Some p\<rparr>))) @ [NoModulesFound]"
proof -
  have ex: "extract_modules_dir e = (Some p, [])"
    using dir by (rule extract_modules_dir_messages)
  obtain ms st1 msgs2 where sc: "scan_modules sch e (init\<lparr>modules_dir := Some p\<rparr>) = (ms, st1, msgs2)"
    by (cases "scan_modules sch e (init\<lparr>modules_dir := Some p\<rparr>)")
  with scan have "ms = []" by simp
  then show "status (run sch e) = 1" and "report (run sch e) = None"
    and "p \<noteq> [] \<Longrightarrow> printed (run sch e) =
           snd (snd (scan_modules sch e (init\<lparr>modules_dir := Some p\<rparr>))) @ [NoModulesFound]"
    by (auto simp: run_unfold [OF ex sc] sc)
qed



lemma extract_modules_dir_writable [simp]:
  "extract_modules_dir (e\<lparr>writable := b\<rparr>) = extract_modules_dir e"
  by (simp add: extract_modules_dir_def split: hcl.splits option.splits)

lemma extract_modules_dir_fs [simp]:
  "extract_modules_dir (e\<lparr>fs := f\<rparr>) = extract_modules_dir e"
  by (simp add: extract_modules_dir_def split: hcl.splits option.splits)


lemma registry_facts:
  "fst (extract_modules_dir registry) = Some ''/work/modules''"
  "fs registry ''/work/modules'' = Directory registry_root"
  "listable registry_root"
  "sorted_list_of_set (module_names registry_root) = [''b'', ''inner_vpc'']"
  "distinct (map fst (entries registry_root))"
proof -
  show "fst (extract_modules_dir registry) = Some ''/work/modules''"
    unfolding registry_def by code_simp
  show "fs registry ''/work/modules'' = Directory registry_root"
    by (simp add: registry_def)
  show "listable registry_root"
    by (simp add: registry_root_def)
  show "sorted_list_of_set (module_names registry_root) = [''b'', ''inner_vpc'']"
    unfolding registry_root_def by code_simp
  show "distinct (map fst (entries registry_root))"
    by (simp add: registry_root_def)
qed


text \<open>
  Claim C7. Given a root directory path, \<^verbatim>\<open>scan_modules\<close> returns the sorted list,
  without repetition, of the names of the entries that are directories and do not start
  with \<^verbatim>\<open>.\<close>; entries that are no directories and hidden entries are not in it. A root
  that is missing or not a directory gives the empty list and the error message, and the
  run ends with status 1 and no report.
\<close>

theorem scan_modules_sorted_directories:
  assumes valid: "valid_schedule sch" and dir: "modules_dir st = Some p" and p: "p \<noteq> []"
  shows
    "(fs e p = Directory d \<and> listable d \<and> distinct (map fst (entries d)) \<longrightarrow>
        sorted (fst (scan_modules sch e st)) \<and> distinct (fst (scan_modules sch e st)) \<and>
        set (fst (scan_modules sch e st)) =
          {name. (\<exists>m. (name, Subdir m) \<in> set (entries d)) \<and> \<not> startswith name ''.''} \<and>
        fst (scan_modules sch e st) = sorted_list_of_set (module_names d)) \<and>
     (fs e p = Missing \<or> fs e p = NotADirectory \<longrightarrow>
        scan_modules sch e st = ([], st, [InvalidModulesDir])) \<and>
     (fst (extract_modules_dir e) = Some p \<and> (fs e p = Missing \<or> fs e p = NotADirectory) \<longrightarrow>
        status (run sch e) = 1 \<and> report (run sch e) = None \<and>
        printed (run sch e) = [InvalidModulesDir, NoModulesFound])"
proof (intro conjI impI)
  assume a: "fs e p = Directory d \<and> listable d \<and> distinct (map fst (entries d))"
  then have root: "fs e p = Directory d" and listable: "listable d"
    and names: "distinct (map fst (entries d))"
    by simp_all
  note listed = scan_modules_listed [OF dir p root listable valid]
  show "sorted (fst (scan_modules sch e st))" by (rule listed(2))
  show "set (fst (scan_modules sch e st)) =
          {name. (\<exists>m. (name, Subdir m) \<in> set (entries d)) \<and> \<not> startswith name ''.''}"
    using listed(1) module_names_iff [OF names] by simp
  show "fst (scan_modules sch e st) = sorted_list_of_set (module_names d)"
    using names by (rule listed(5))
  then show "distinct (fst (scan_modules sch e st))"
    by simp
next
  assume "fs e p = Missing \<or> fs e p = NotADirectory"
  with dir show "scan_modules sch e st = ([], st, [InvalidModulesDir])"
    by (rule scan_modules_invalid)
next
  assume a: "fst (extract_modules_dir e) = Some p \<and> (fs e p = Missing \<or> fs e p = NotADirectory)"
  let ?st = "init\<lparr>modules_dir := Some p\<rparr>"
  have "modules_dir ?st = Some p" by simp
  then have scan: "scan_modules sch e ?st = ([], ?st, [InvalidModulesDir])"
    using a by (simp add: scan_modules_invalid)
  then have none: "fst (scan_modules sch e ?st) = []" by simp
  from a have ex: "fst (extract_modules_dir e) = Some p" by simp
  show "status (run sch e) = 1" using ex none by (rule run_no_modules(1))
  show "report (run sch e) = None" using ex none by (rule run_no_modules(2))
  show "printed (run sch e) = [InvalidModulesDir, NoModulesFound]"
    using run_no_modules(3) [OF ex none p] scan by simp
qed

theorem scan_modules_sorted_directories_witness:
  "valid_schedule backwards \<and>
   fst (scan_modules backwards registry (init\<lparr>modules_dir := Some ''/work/modules''\<rparr>))
     = [''b'', ''inner_vpc''] \<and>
   status (run backwards (registry\<lparr>fs := \<lambda>path. NotADirectory\<rparr>)) = 1 \<and>
   report (run backwards (registry\<lparr>fs := \<lambda>path. NotADirectory\<rparr>)) = None"
proof -
  let ?st = "init\<lparr>modules_dir := Some ''/work/modules''\<rparr>"
  have st: "modules_dir ?st = Some ''/work/modules''" by simp
  have p: "''/work/modules'' \<noteq> []" by simp
  have "fst (scan_modules backwards registry ?st) = [''b'', ''inner_vpc'']"
    using scan_modules_sorted_directories [OF valid_backwards st p, of registry registry_root]
      registry_facts
    by simp
  moreover have "status (run backwards (registry\<lparr>fs := \<lambda>path. NotADirectory\<rparr>)) = 1 \<and>
      report (run backwards (registry\<lparr>fs := \<lambda>path. NotADirectory\<rparr>)) = None"
    using scan_modules_sorted_directories [OF valid_backwards st p,
        of "registry\<lparr>fs := \<lambda>path. NotADirectory\<rparr>"] registry_facts(1)
    by simp
  ultimately show ?thesis using valid_backwards by simp
qed

lemma registry_run:
  assumes "valid_schedule sch"
  shows "modules_dir (final (run sch registry)) = Some ''/work/modules''"
    and "all_modules (final (run sch registry)) = {''b'', ''inner_vpc''}"
    and "module_path registry (final (run sch registry)) ''b'' = module_east_b"
    and "module_path registry (final (run sch registry)) ''inner_vpc'' = module_inner_vpc"
proof -
  have p: "''/work/modules'' \<noteq> []" by simp
  have names: "module_names registry_root = {''b'', ''inner_vpc''}"
    unfolding registry_root_def by code_simp
  then have nonempty: "module_names registry_root \<noteq> {}" by simp
  note ok = run_success [OF registry_facts(1) p registry_facts(2,3) nonempty assms]
  show dir: "modules_dir (final (run sch registry)) = Some ''/work/modules''"
    by (rule ok(2))
  show "all_modules (final (run sch registry)) = {''b'', ''inner_vpc''}"
    using ok(3) names by simp
  show "module_path registry (final (run sch registry)) ''b'' = module_east_b"
    by (simp add: module_path_def dir registry_facts(2)) (simp add: registry_root_def)
  show "module_path registry (final (run sch registry)) ''inner_vpc'' = module_inner_vpc"
    by (simp add: module_path_def dir registry_facts(2)) (simp add: registry_root_def)
qed

lemma registry_aliases:
  "extract_provider_aliases module_east_b = {''east''}"
  "extract_provider_aliases module_inner_vpc = {''east''}"
  unfolding module_east_b_def module_inner_vpc_def by code_simp+

text \<open>
  Claim C10. After a run every module in the declaring set of an alias is a member of
  the scanned module universe, so every module on a line of a \<^verbatim>\<open>PROVIDER\<close> section is
  also on a line of the \<^verbatim>\<open>MODULES:\<close> section.
\<close>

theorem alias_modules_are_scanned:
  assumes "valid_schedule sch"
  shows "Mapping.lookup_default {} (provider_aliases (final (run sch e))) alias
           \<subseteq> all_modules (final (run sch e)) \<and>
         set (sorted_list_of_set
                (Mapping.lookup_default {} (provider_aliases (final (run sch e))) alias))
           \<subseteq> set (sorted_list_of_set (all_modules (final (run sch e))))"
proof -
  let ?F = "final (run sch e)"
  have sub: "Mapping.lookup_default {} (provider_aliases ?F) alias \<subseteq> all_modules ?F"
    by (auto simp: final_fields(4) [OF assms])
  have fin: "finite (all_modules ?F)" by (rule final_fields(1) [OF assms])
  with sub have "finite (Mapping.lookup_default {} (provider_aliases ?F) alias)"
    by (simp add: finite_subset)
  with sub fin show ?thesis by simp
qed

theorem alias_modules_are_scanned_witness:
  "valid_schedule forwards \<and>
   Mapping.lookup_default {} (provider_aliases (final (run forwards registry))) ''east''
     = {''b'', ''inner_vpc''} \<and>
   {''b'', ''inner_vpc''} \<subseteq> all_modules (final (run forwards registry))"
proof -
  let ?F = "final (run forwards registry)"
  note r = registry_run [OF valid_forwards]
  have "Mapping.lookup_default {} (provider_aliases ?F) ''east'' = {''b'', ''inner_vpc''}"
    unfolding final_fields(4) [OF valid_forwards] r(2)
    by (auto simp: module_aliases_def r(3,4) registry_aliases)
  with alias_modules_are_scanned [OF valid_forwards, of registry "''east''"] valid_forwards
  show ?thesis by simp
qed

subsection \<open>Self-references\<close>

text \<open>
  Claim C2. After a run no module is a member of its own dependency set, and so no
  module is in its own rendered \<^verbatim>\<open>depends_on\<close> list, also when its own files declare a
  \<^verbatim>\<open>module\<close> block of its name or a data block whose name infers it.
\<close>

theorem no_self_dependency:
  assumes "valid_schedule sch"
  shows "module \<notin> Mapping.lookup_default {} (dependencies (final (run sch e))) module \<and>
         module \<notin> set (depends_on (final (run sch e)) module)"
proof -
  let ?deps = "Mapping.lookup_default {} (dependencies (final (run sch e))) module"
  have notin: "module \<notin> ?deps"
    by (simp add: final_fields(2) [OF assms] all_deps_def)
  have "finite ?deps"
    by (simp add: final_fields(2) [OF assms] finite_all_deps [OF assms])
  then have "set (depends_on (final (run sch e)) module) = ?deps"
    by (simp add: depends_on_default)
  with notin show ?thesis by simp
qed

theorem no_self_dependency_witness:
  "valid_schedule forwards \<and>
   ''inner_vpc'' \<in> extract_explicit_dependencies forwards module_inner_vpc \<and>
   ''inner_vpc'' \<in> extract_implicit_dependencies forwards module_inner_vpc \<and>
   ''inner_vpc'' \<notin> set (depends_on (final (run forwards registry)) ''inner_vpc'')"
proof -
  have "''inner_vpc'' \<in> extract_explicit_dependencies forwards module_inner_vpc"
    unfolding module_inner_vpc_def forwards_def by code_simp
  moreover have "''inner_vpc'' \<in> extract_implicit_dependencies forwards module_inner_vpc"
    unfolding module_inner_vpc_def forwards_def by code_simp
  ultimately show ?thesis
    using valid_forwards no_self_dependency [OF valid_forwards, of "''inner_vpc''" registry]
    by simp
qed


subsection \<open>The report\<close>

lemma fold_append_line: "fold (\<lambda>x ls. ls @ [f x]) xs acc = acc @ map f xs"
  by (induction xs arbitrary: acc) simp_all

lemma provider_lines_eq:
  "provider_lines st alias ls =
     ls @ spec_provider_section alias (Mapping.lookup_default {} (provider_aliases st) alias)"
  by (simp add: provider_lines_def spec_provider_section_def fold_append_line)

lemma fold_provider_lines:
  "fold (provider_lines st) as acc =
     acc @ concat (map (\<lambda>alias. spec_provider_section alias
                                  (Mapping.lookup_default {} (provider_aliases st) alias)) as)"
  by (induction as arbitrary: acc) (simp_all add: provider_lines_eq)

lemma module_line_eq:
  assumes "finite (Mapping.lookup_default {} (dependencies st) module)"
  shows "module_line st module =
           spec_module_line module (Mapping.lookup_default {} (dependencies st) module)"
  using assms
  by (simp add: module_line_def spec_module_line_def depends_on_default Let_def)

lemma output_lines_eq:
  assumes "\<And>module. finite (Mapping.lookup_default {} (dependencies st) module)"
  shows "output_lines st =
           spec_report (all_modules st) (Mapping.lookup_default {} (dependencies st))
             (Mapping.keys (provider_aliases st)) (Mapping.lookup_default {} (provider_aliases st))"
  unfolding output_lines_def Let_def fold_append_line fold_provider_lines spec_report_def
  by (simp add: module_line_eq [OF assms])

lemma finite_final_dependencies:
  assumes "valid_schedule sch"
  shows "finite (Mapping.lookup_default {} (dependencies (final (run sch e))) module)"
  by (simp add: final_fields(2) [OF assms] finite_all_deps [OF assms])

lemma sort_mset: "mset xs = mset ys \<Longrightarrow> sort xs = sort (ys :: string list)"
proof -
  assume "mset xs = mset ys"
  then have "mset (sort ys) = mset xs" by simp
  then show ?thesis by (rule properties_for_sort) simp
qed

lemma listdir_schedule:
  "valid_schedule sch1 \<Longrightarrow> valid_schedule sch2 \<Longrightarrow> sort (listdir sch1 d) = sort (listdir sch2 d)"
  by (rule sort_mset) (simp add: listdir_def valid_schedule_def)

lemma scan_modules_schedule:
  assumes "valid_schedule sch1" and "valid_schedule sch2"
  shows "scan_modules sch1 e st = scan_modules sch2 e st"
  unfolding scan_modules_def Let_def listdir_schedule [OF assms] ..

lemma all_deps_schedule:
  assumes "valid_schedule sch1" and "valid_schedule sch2"
  shows "all_deps sch1 e st n = all_deps sch2 e st n"
  by (simp add: all_deps_def extract_explicit_dependencies_eq assms
      extract_implicit_dependencies_eq)

lemma analysis_schedule:
  assumes v1: "valid_schedule sch1" and v2: "valid_schedule sch2"
  shows "fold (analyze_module sch1 e) ms st = fold (analyze_module sch2 e) ms st"
proof (rule tfdeps.equality)
  note f1 = analysis_fields [OF v1, of e ms st] and f2 = analysis_fields [OF v2, of e ms st]
  note same = all_deps_schedule [OF v1 v2, of e st]
  show "modules_dir (fold (analyze_module sch1 e) ms st) =
        modules_dir (fold (analyze_module sch2 e) ms st)"
    using f1 f2 by simp
  show "all_modules (fold (analyze_module sch1 e) ms st) =
        all_modules (fold (analyze_module sch2 e) ms st)"
    using f1 f2 by simp
  show "provider_aliases (fold (analyze_module sch1 e) ms st) =
        provider_aliases (fold (analyze_module sch2 e) ms st)"
    by (rule mapping_eq_by_keys) (use f1 f2 in simp_all)
  show "dependencies (fold (analyze_module sch1 e) ms st) =
        dependencies (fold (analyze_module sch2 e) ms st)"
    by (rule mapping_eq_by_keys) (use f1 f2 in \<open>simp_all add: same\<close>)
qed simp

lemma run_schedule:
  assumes v1: "valid_schedule sch1" and v2: "valid_schedule sch2"
  shows "run sch1 e = run sch2 e"
proof -
  obtain dir msgs1 where ex: "extract_modules_dir e = (dir, msgs1)"
    by (cases "extract_modules_dir e")
  obtain ms st1 msgs2 where sc: "scan_modules sch1 e (init\<lparr>modules_dir := dir\<rparr>) = (ms, st1, msgs2)"
    by (cases "scan_modules sch1 e (init\<lparr>modules_dir := dir\<rparr>)")
  then have sc': "scan_modules sch2 e (init\<lparr>modules_dir := dir\<rparr>) = (ms, st1, msgs2)"
    by (simp add: scan_modules_schedule [OF v1 v2])
  show ?thesis
    unfolding run_unfold [OF ex sc] run_unfold [OF ex sc'] analysis_schedule [OF v1 v2] ..
qed

lemma output_lines_fields:
  assumes "all_modules st = all_modules st'" and "dependencies st = dependencies st'"
    and "provider_aliases st = provider_aliases st'"
  shows "output_lines st = output_lines st'"
proof -
  have "module_line st = module_line st'"
    by (simp add: fun_eq_iff module_line_def depends_on_def assms)
  moreover have "provider_lines st = provider_lines st'"
    by (simp add: fun_eq_iff provider_lines_def assms)
  ultimately show ?thesis
    by (simp add: output_lines_def assms)
qed

text \<open>
  Claim C4. The pipeline is deterministic: for a fixed environment (configuration file,
  module universe, file contents) two runs give the same outcome, and so the same text of
  the report, whatever the order in which \<^verbatim>\<open>os.listdir\<close> returns the names and the order
  in which Python iterates over its sets in either run. The rendered lines are a function
  of the module universe, the dependency map and the alias registry, and of nothing else.
\<close>

theorem report_deterministic:
  assumes "valid_schedule sch1" and "valid_schedule sch2"
  shows "main sch1 e = main sch2 e \<and>
         report (main sch1 e) = report (main sch2 e) \<and>
         (all_modules st = all_modules st' \<and> dependencies st = dependencies st' \<and>
          provider_aliases st = provider_aliases st' \<longrightarrow> output_lines st = output_lines st')"
proof (intro conjI impI)
  show same: "main sch1 e = main sch2 e"
    by (simp add: main_def run_schedule [OF assms])
  show "report (main sch1 e) = report (main sch2 e)"
    by (simp only: same)
next
  assume "all_modules st = all_modules st' \<and> dependencies st = dependencies st' \<and>
          provider_aliases st = provider_aliases st'"
  then show "output_lines st = output_lines st'"
    by (intro output_lines_fields) simp_all
qed

theorem report_deterministic_witness:
  "valid_schedule forwards \<and> valid_schedule backwards \<and>
   listing_order forwards [''a.tf'', ''b.tf''] \<noteq> listing_order backwards [''a.tf'', ''b.tf''] \<and>
   report (main forwards registry) = report (main backwards registry)"
proof (intro conjI)
  show "valid_schedule forwards" by (rule valid_forwards)
  show "valid_schedule backwards" by (rule valid_backwards)
  show "listing_order forwards [''a.tf'', ''b.tf''] \<noteq> listing_order backwards [''a.tf'', ''b.tf'']"
    by (simp add: forwards_def backwards_def)
  show "report (main forwards registry) = report (main backwards registry)"
    by (rule report_deterministic [OF valid_forwards valid_backwards, THEN conjunct2,
          THEN conjunct1])
qed

lemma set_map_filter_infer:
  "set (List.map_filter infer_module_name names) =
     {m. \<exists>name\<in>set names. infer_module_name name = Some m}"
  by (induction names) (auto split: option.splits)

lemma deps_of_dir:
  assumes "valid_schedule sch"
  shows "extract_explicit_dependencies sch d \<union> extract_implicit_dependencies sch d =
           (if listable d
            then set (module_blocks d) \<union> set (List.map_filter infer_module_name (data_blocks d))
            else {})"
  by (auto simp: extract_explicit_dependencies_eq [OF assms]
      extract_implicit_dependencies_eq [OF assms] set_map_filter_infer)

lemma scenario_facts:
  "fst (extract_modules_dir scenario) = Some ''/work/modules''"
  "fs scenario ''/work/modules'' =
     Directory \<lparr>listable = True, entries = [(''b'', Subdir module_b), (''a'', Subdir module_a)]\<rparr>"
  "module_names \<lparr>listable = True, entries = [(''b'', Subdir module_b), (''a'', Subdir module_a)]\<rparr>
     = {''a'', ''b''}"
  "writable scenario"
proof -
  show "fst (extract_modules_dir scenario) = Some ''/work/modules''"
    unfolding scenario_def by code_simp
  show "fs scenario ''/work/modules'' =
     Directory \<lparr>listable = True, entries = [(''b'', Subdir module_b), (''a'', Subdir module_a)]\<rparr>"
    by (simp add: scenario_def)
  show "module_names \<lparr>listable = True, entries = [(''b'', Subdir module_b), (''a'', Subdir module_a)]\<rparr>
     = {''a'', ''b''}"
    by code_simp
  show "writable scenario"
    by (simp add: scenario_def)
qed

lemma scenario_blocks:
  "listable module_a" "listable module_b"
  "set (module_blocks module_a) \<union> set (List.map_filter infer_module_name (data_blocks module_a))
     = {''b'', ''inner_vpc''}"
  "set (module_blocks module_b) \<union> set (List.map_filter infer_module_name (data_blocks module_b))
     = {}"
  "extract_provider_aliases module_a = {}" "extract_provider_aliases module_b = {}"
proof -
  show "listable module_a" "listable module_b"
    by (simp_all add: module_a_def module_b_def)
  show "set (module_blocks module_a) \<union> set (List.map_filter infer_module_name (data_blocks module_a))
     = {''b'', ''inner_vpc''}"
    unfolding module_a_def by code_simp
  show "set (module_blocks module_b) \<union> set (List.map_filter infer_module_name (data_blocks module_b))
     = {}"
    unfolding module_b_def by code_simp
  show "extract_provider_aliases module_a = {}" "extract_provider_aliases module_b = {}"
    unfolding module_a_def module_b_def by code_simp+
qed

lemma scenario_run:
  assumes valid: "valid_schedule sch"
  shows "status (run sch scenario) = 0"
    and "all_modules (final (run sch scenario)) = {''a'', ''b''}"
    and "all_deps sch scenario (final (run sch scenario)) ''a'' = {''b'', ''inner_vpc''}"
    and "all_deps sch scenario (final (run sch scenario)) ''b'' = {}"
    and "module_aliases scenario (final (run sch scenario)) ''a'' = {}"
    and "module_aliases scenario (final (run sch scenario)) ''b'' = {}"
    and "report (run sch scenario) = Some (join [newline] (output_lines (final (run sch scenario))))"
proof -
  have p: "''/work/modules'' \<noteq> []" by simp
  have nonempty: "module_names \<lparr>listable = True,
      entries = [(''b'', Subdir module_b), (''a'', Subdir module_a)]\<rparr> \<noteq> {}"
    unfolding scenario_facts(3) by simp
  note ok = run_success [OF scenario_facts(1) p scenario_facts(2) _ nonempty valid, simplified]
  show "status (run sch scenario) = 0" by (rule ok(1))
  show "all_modules (final (run sch scenario)) = {''a'', ''b''}"
    using ok(3) scenario_facts(3) by simp
  have a: "module_path scenario (final (run sch scenario)) ''a'' = module_a"
    by (simp add: module_path_def ok(2) scenario_facts(2))
  have b: "module_path scenario (final (run sch scenario)) ''b'' = module_b"
    by (simp add: module_path_def ok(2) scenario_facts(2))
  show "all_deps sch scenario (final (run sch scenario)) ''a'' = {''b'', ''inner_vpc''}"
    unfolding all_deps_def a deps_of_dir [OF valid] by (simp add: scenario_blocks)
  show "all_deps sch scenario (final (run sch scenario)) ''b'' = {}"
    unfolding all_deps_def b deps_of_dir [OF valid] by (simp add: scenario_blocks)
  show "module_aliases scenario (final (run sch scenario)) ''a'' = {}"
    by (simp add: module_aliases_def a scenario_blocks)
  show "module_aliases scenario (final (run sch scenario)) ''b'' = {}"
    by (simp add: module_aliases_def b scenario_blocks)
  show "report (run sch scenario) = Some (join [newline] (output_lines (final (run sch scenario))))"
    using ok(4) scenario_facts(4) by simp
qed

lemma scenario_lines:
  assumes valid: "valid_schedule sch"
  shows "output_lines (final (run sch scenario)) =
           [''/*'', ''MODULES:'', ''- a (depends_on: b, inner_vpc)'', ''- b'', ''*/'']"
proof -
  note r = scenario_run [OF valid]
  note f = final_fields [OF valid, of scenario]
  have keys: "Mapping.keys (provider_aliases (final (run sch scenario))) = {}"
    unfolding f(5) r(2) by (simp add: r)
  have universe: "sorted_list_of_set {''a'', ''b''} = [''a'', ''b'']"
    by simp
  have deps: "sorted_list_of_set {''b'', ''inner_vpc''} = [''b'', ''inner_vpc'']"
    by simp
  show ?thesis
    unfolding output_lines_eq [OF finite_final_dependencies [OF valid]] spec_report_def
      keys r(2) universe
    by (simp add: f(2) r spec_module_line_def deps)
qed

text \<open>
  Claim C8. The rendered dependency list of a scanned module is the set of its explicit
  and inferred names without its own name: no inferred name is checked against the
  scanned universe. In the scenario of the specification, module \<^verbatim>\<open>a\<close> with
  \<^verbatim>\<open>module "b" {}\<close> and a data block named \<^verbatim>\<open>inner_db\<close> beside the empty module
  \<^verbatim>\<open>b\<close>, the report lists \<^verbatim>\<open>- a (depends_on: b, inner_vpc)\<close> and \<^verbatim>\<open>- b\<close>, and
  \<^verbatim>\<open>inner_vpc\<close> has no entry of its own.
\<close>

theorem inferred_names_kept_verbatim:
  assumes valid: "valid_schedule sch"
  shows
    "(module \<in> all_modules (final (run sch e)) \<longrightarrow>
        set (depends_on (final (run sch e)) module) =
          (extract_explicit_dependencies sch (module_path e (final (run sch e)) module) \<union>
           extract_implicit_dependencies sch (module_path e (final (run sch e)) module))
          - {module}) \<and>
     output_lines (final (run sch scenario)) =
       [''/*'', ''MODULES:'', ''- a (depends_on: b, inner_vpc)'', ''- b'', ''*/''] \<and>
     report (run sch scenario) =
       Some (join [newline]
         [''/*'', ''MODULES:'', ''- a (depends_on: b, inner_vpc)'', ''- b'', ''*/'']) \<and>
     all_modules (final (run sch scenario)) = {''a'', ''b''} \<and>
     ''inner_vpc'' \<notin> all_modules (final (run sch scenario))"
proof (intro conjI impI)
  assume "module \<in> all_modules (final (run sch e))"
  then have "Mapping.lookup_default {} (dependencies (final (run sch e))) module =
      all_deps sch e (final (run sch e)) module"
    by (simp add: final_fields(2) [OF valid])
  then show "set (depends_on (final (run sch e)) module) =
          (extract_explicit_dependencies sch (module_path e (final (run sch e)) module) \<union>
           extract_implicit_dependencies sch (module_path e (final (run sch e)) module))
          - {module}"
    using finite_final_dependencies [OF valid, of e module]
    by (simp add: depends_on_default all_deps_def)
next
  show lines: "output_lines (final (run sch scenario)) =
       [''/*'', ''MODULES:'', ''- a (depends_on: b, inner_vpc)'', ''- b'', ''*/'']"
    by (rule scenario_lines [OF valid])
  show "report (run sch scenario) =
       Some (join [newline]
         [''/*'', ''MODULES:'', ''- a (depends_on: b, inner_vpc)'', ''- b'', ''*/''])"
    unfolding scenario_run(7) [OF valid] lines ..
  show universe: "all_modules (final (run sch scenario)) = {''a'', ''b''}"
    by (rule scenario_run(2) [OF valid])
  show "''inner_vpc'' \<notin> all_modules (final (run sch scenario))"
    unfolding universe by simp
qed

theorem inferred_names_kept_verbatim_witness:
  \<open>valid_schedule forwards \<and>
   ''a'' \<in> all_modules (final (run forwards scenario)) \<and>
   ''inner_vpc'' \<in> set (depends_on (final (run forwards scenario)) ''a'') \<and>
   ''inner_vpc'' \<notin> all_modules (final (run forwards scenario)) \<and>
   report (run forwards scenario) =
     Some ''/*\<newline>MODULES:\<newline>- a (depends_on: b, inner_vpc)\<newline>- b\<newline>*/''\<close>
proof -
  note kept = inferred_names_kept_verbatim [OF valid_forwards, of "''a''" scenario]
  have member: "''a'' \<in> all_modules (final (run forwards scenario))"
    using kept by simp
  have "module_path scenario (final (run forwards scenario)) ''a'' = module_a"
    using scenario_run(3) [OF valid_forwards] run_success(2) [OF scenario_facts(1) _ scenario_facts(2)]
    by (simp add: module_path_def scenario_facts(2) scenario_facts(3) valid_forwards)
  moreover have "''inner_vpc'' \<in> extract_implicit_dependencies forwards module_a"
    unfolding module_a_def forwards_def by code_simp
  ultimately have "''inner_vpc'' \<in> set (depends_on (final (run forwards scenario)) ''a'')"
    using kept member by simp
  moreover have "join [newline]
      [''/*'', ''MODULES:'', ''- a (depends_on: b, inner_vpc)'', ''- b'', ''*/'']
      = ''/*\<newline>MODULES:\<newline>- a (depends_on: b, inner_vpc)\<newline>- b\<newline>*/''"
    by (simp add: newline_def)
  ultimately show ?thesis
    using kept member valid_forwards by simp
qed





subsection \<open>Comment stripping\<close>

lemma startswith_Cons2:
  "startswith (c # cs) [a, b] \<longleftrightarrow> c = a \<and> (\<exists>r. cs = b # r)"
  by (cases cs) (auto simp: startswith_def)

lemma startswith_Nil2 [simp]: "\<not> startswith [] [a, b]"
  by (simp add: startswith_def)

lemma find_close_append:
  "find_close x = Some y \<Longrightarrow> find_close (x @ s) = Some (y @ s)"
proof (induction x)
  case Nil
  then show ?case by simp
next
  case (Cons c cs)
  show ?case
  proof (cases "startswith (c # cs) ''*/''")
    case True
    then obtain r where "cs = CHR ''/'' # r" "c = CHR ''*''"
      by (auto simp: startswith_Cons2)
    with Cons.prems show ?thesis by (simp add: startswith_Cons2)
  next
    case False
    with Cons.prems have close: "find_close cs = Some y" by simp
    then have "cs \<noteq> []" by auto
    with False have "\<not> startswith ((c # cs) @ s) ''*/''"
      by (cases cs) (auto simp: startswith_Cons2)
    with Cons.IH [OF close] show ?thesis by simp
  qed
qed

lemma find_close_body:
  "\<not> contains body ''*/'' \<Longrightarrow> find_close (body @ ''*/'' @ post) = Some post"
proof (induction body)
  case Nil
  show ?case by (simp add: startswith_Cons2)
next
  case (Cons c b)
  then have no: "\<not> startswith (c # b) ''*/''" and rest: "\<not> contains b ''*/''"
    by simp_all
  from no have "\<not> startswith ((c # b) @ ''*/'' @ post) ''*/''"
    by (cases b) (auto simp: startswith_Cons2)
  with Cons.IH [OF rest] show ?case by simp
qed

lemma strip_block_keep:
  "\<not> startswith (c # cs) ''/*'' \<Longrightarrow> strip_block (c # cs) = c # strip_block cs"
  by (simp add: strip_block.simps)

lemma strip_block_delete:
  "startswith (c # cs) ''/*'' \<Longrightarrow> find_close (drop 1 cs) = Some rest \<Longrightarrow>
     strip_block (c # cs) = strip_block rest"
  by (simp add: strip_block.simps)

lemma strip_block_unclosed:
  "startswith (c # cs) ''/*'' \<Longrightarrow> find_close (drop 1 cs) = None \<Longrightarrow>
     strip_block (c # cs) = c # strip_block cs"
  by (simp add: strip_block.simps)

lemma strip_block_star: "strip_block (CHR ''*'' # r) = CHR ''*'' # strip_block r"
  by (simp add: strip_block_keep startswith_Cons2)

lemma strip_block_closed_append:
  assumes "closed_before pre" and "s = [] \<or> hd s \<noteq> CHR ''*''"
  shows "strip_block (pre @ s) = strip_block pre @ strip_block s"
  using assms(1)
proof (induction pre rule: strip_block.induct)
  case 1
  show ?case by simp
next
  case (2 c cs)
  show ?case
  proof (cases "startswith (c # cs) ''/*''")
    case True
    then obtain r where cs: "cs = CHR ''*'' # r" and c: "c = CHR ''/''"
      by (auto simp: startswith_Cons2)
    show ?thesis
    proof (cases "find_close (drop 1 cs)")
      case None
      with True have "strip_block (c # cs) = c # strip_block cs"
        by (simp add: strip_block_unclosed)
      then have "strip_block (c # cs) = CHR ''/'' # CHR ''*'' # strip_block r"
        by (simp add: c cs strip_block_star)
      then have "contains (strip_block (c # cs)) ''/*''"
        by (simp add: startswith_Cons2)
      with "2.prems" show ?thesis by (simp add: closed_before_def)
    next
      case (Some rest)
      with True have eq: "strip_block (c # cs) = strip_block rest"
        by (simp add: strip_block_delete)
      with "2.prems" have "closed_before rest" by (simp add: closed_before_def)
      with True Some have IH: "strip_block (rest @ s) = strip_block rest @ strip_block s"
        by (rule "2.IH"(2))
      from Some have "find_close (drop 1 (cs @ s)) = Some (rest @ s)"
        using find_close_append [of "drop 1 cs" rest s] by (simp add: cs)
      moreover have "startswith ((c # cs) @ s) ''/*''"
        by (simp add: c cs startswith_Cons2)
      ultimately have "strip_block ((c # cs) @ s) = strip_block (rest @ s)"
        using strip_block_delete [of c "cs @ s" "rest @ s"] by simp
      with IH eq show ?thesis by simp
    qed
  next
    case False
    then have keep: "strip_block (c # cs) = c # strip_block cs"
      by (rule strip_block_keep)
    with "2.prems" have "closed_before cs"
      by (simp add: closed_before_def)
    with False have IH: "strip_block (cs @ s) = strip_block cs @ strip_block s"
      by (rule "2.IH"(3))
    have "\<not> startswith ((c # cs) @ s) ''/*''"
    proof (cases cs)
      case Nil
      with assms(2) show ?thesis by (cases s) (auto simp: startswith_Cons2)
    next
      case (Cons d ds)
      with False show ?thesis by (auto simp: startswith_Cons2)
    qed
    then have "strip_block ((c # cs) @ s) = c # strip_block (cs @ s)"
      using strip_block_keep [of c "cs @ s"] by simp
    with IH keep show ?thesis by simp
  qed
qed

lemma strip_block_comment:
  assumes "\<not> contains body ''*/''"
  shows "strip_block (''/*'' @ body @ ''*/'' @ post) = strip_block post"
  using find_close_body [OF assms, of post]
    strip_block_delete [of "CHR ''/''" "CHR ''*'' # body @ ''*/'' @ post" post]
  by (simp add: startswith_Cons2)

lemma strip_block_first_comment:
  assumes "closed_before pre" and "\<not> contains body ''*/''"
  shows "strip_block (pre @ ''/*'' @ body @ ''*/'' @ post) = strip_block pre @ strip_block post"
proof -
  have "strip_block (pre @ (''/*'' @ body @ ''*/'' @ post)) =
      strip_block pre @ strip_block (''/*'' @ body @ ''*/'' @ post)"
    by (rule strip_block_closed_append [OF assms(1)]) simp
  then show ?thesis
    by (simp only: strip_block_comment [OF assms(2)])
qed

lemma strip_block_no_open: "\<not> contains s ''/*'' \<Longrightarrow> strip_block s = s"
  by (induction s) (simp_all add: strip_block_keep)

lemma closed_before_no_open: "\<not> contains s ''/*'' \<Longrightarrow> closed_before s"
  by (simp add: closed_before_def strip_block_no_open)

lemma strip_block_plain_append:
  assumes "closed_before pre" and "m \<noteq> []" and "hd m \<noteq> CHR ''*''" and "\<not> contains m ''/*''"
    and "rest = [] \<or> hd rest = newline"
  shows "strip_block (pre @ m @ rest) = strip_block pre @ m @ strip_block rest"
proof -
  have "strip_block (pre @ (m @ rest)) = strip_block pre @ strip_block (m @ rest)"
    by (rule strip_block_closed_append [OF assms(1)]) (use assms(2,3) in auto)
  moreover have "strip_block (m @ rest) = strip_block m @ strip_block rest"
    by (rule strip_block_closed_append [OF closed_before_no_open [OF assms(4)]])
       (use assms(5) in \<open>auto simp: newline_def\<close>)
  ultimately show ?thesis
    by (simp add: strip_block_no_open [OF assms(4)])
qed

lemma strip_block_line_end:
  "rest = [] \<or> hd rest = newline \<Longrightarrow> strip_block rest = [] \<or> hd (strip_block rest) = newline"
  by (cases rest) (auto simp: strip_block_keep startswith_Cons2 newline_def)

lemma strip_slashes_keep:
  "\<not> startswith (c # cs) ''//'' \<Longrightarrow> strip_slashes (c # cs) = c # strip_slashes cs"
  by (simp add: strip_slashes.simps)

lemma strip_slashes_delete:
  "startswith (c # cs) ''//'' \<Longrightarrow>
     strip_slashes (c # cs) = strip_slashes (dropWhile (\<lambda>x. x \<noteq> newline) (drop 1 cs))"
  by (simp add: strip_slashes.simps)

lemma strip_hash_keep: "c \<noteq> CHR ''#'' \<Longrightarrow> strip_hash (c # cs) = c # strip_hash cs"
  by (simp add: strip_hash.simps)

lemma strip_hash_delete:
  "strip_hash (CHR ''#'' # cs) = strip_hash (dropWhile (\<lambda>x. x \<noteq> newline) cs)"
  by (simp add: strip_hash.simps)

lemma rest_of_line:
  assumes "newline \<notin> set l" and "rest = [] \<or> hd rest = newline"
  shows "dropWhile (\<lambda>x. x \<noteq> newline) (l @ rest) = rest"
proof -
  have "dropWhile (\<lambda>x. x \<noteq> newline) rest = rest"
    using assms(2) by (cases rest) auto
  with assms(1) show ?thesis by (simp add: dropWhile_append)
qed

lemma rest_of_lines:
  "newline \<in> set p \<Longrightarrow>
     dropWhile (\<lambda>x. x \<noteq> newline) (p @ s) = dropWhile (\<lambda>x. x \<noteq> newline) p @ s"
  by (auto simp: dropWhile_append)

lemma length_rest: "length (dropWhile (\<lambda>x. x \<noteq> newline) p) \<le> length p"
  by (rule length_dropWhile_le)

lemma strip_slashes_bodies:
  assumes b1: "newline \<notin> set b1" and b2: "newline \<notin> set b2"
    and rest: "rest = [] \<or> hd rest = newline"
  shows "strip_slashes (pre @ ''//'' @ b1 @ rest) = strip_slashes (pre @ ''//'' @ b2 @ rest)"
proof (induction pre rule: length_induct)
  case (1 pre)
  have tail: "dropWhile (\<lambda>x. x \<noteq> newline) (l @ b @ rest) = rest"
    if "newline \<notin> set l" and "newline \<notin> set b" for l b
    using rest_of_line [of "l @ b" rest] that rest by simp
  have slash: "newline \<notin> set ''/''"
    by (simp add: newline_def)
  show ?case
  proof (cases pre)
    case Nil
    have "strip_slashes (''//'' @ b @ rest) = strip_slashes rest" if "newline \<notin> set b" for b
      using strip_slashes_delete [of "CHR ''/''" "CHR ''/'' # b @ rest"] tail [of "[]" b] that
      by (simp add: startswith_Cons2)
    from this [OF b1] this [OF b2] Nil show ?thesis by simp
  next
    case (Cons c cs)
    show ?thesis
    proof (cases "startswith ((c # cs) @ ''//'') ''//''")
      case True
      then have start: "startswith (c # cs @ ''//'' @ b @ rest) ''//''" for b
        by (cases cs) (auto simp: startswith_Cons2)
      have deleted: "strip_slashes ((c # cs) @ ''//'' @ b @ rest) =
          strip_slashes (dropWhile (\<lambda>x. x \<noteq> newline) (drop 1 (cs @ ''//'' @ b @ rest)))" for b
        using strip_slashes_delete [OF start [of b]] by simp
      show ?thesis
      proof (cases "newline \<in> set (drop 1 cs)")
        case False
        have "dropWhile (\<lambda>x. x \<noteq> newline) (drop 1 (cs @ ''//'' @ b @ rest)) = rest"
          if "newline \<notin> set b" for b
        proof (cases cs)
          case Nil
          then show ?thesis using tail [of "''/''" b] that slash by simp
        next
          case (Cons d ds)
          with False have "newline \<notin> set (ds @ ''//'')" by (simp add: newline_def)
          from tail [OF this that] Cons show ?thesis by simp
        qed
        from this [OF b1] this [OF b2] show ?thesis
          unfolding Cons deleted by simp
      next
        case nl: True
        then obtain d ds where cs: "cs = d # ds" by (cases cs) auto
        let ?p = "dropWhile (\<lambda>x. x \<noteq> newline) ds"
        have "dropWhile (\<lambda>x. x \<noteq> newline) (drop 1 (cs @ ''//'' @ b @ rest)) =
            ?p @ ''//'' @ b @ rest" for b
          using nl rest_of_lines [of ds "''//'' @ b @ rest"] by (simp add: cs)
        moreover have "length ?p < length pre"
          using length_rest [of ds] by (simp add: Cons cs)
        then have "strip_slashes (?p @ ''//'' @ b1 @ rest) = strip_slashes (?p @ ''//'' @ b2 @ rest)"
          using "1.IH" by blast
        ultimately show ?thesis
          unfolding Cons deleted by simp
      qed
    next
      case False
      then have "\<not> startswith (c # cs @ ''//'' @ b @ rest) ''//''" for b
        by (cases cs) (auto simp: startswith_Cons2)
      then have kept: "strip_slashes ((c # cs) @ ''//'' @ b @ rest) =
          c # strip_slashes (cs @ ''//'' @ b @ rest)" for b
        using strip_slashes_keep [of c "cs @ ''//'' @ b @ rest"] by simp
      have "length cs < length pre" by (simp add: Cons)
      then have "strip_slashes (cs @ ''//'' @ b1 @ rest) = strip_slashes (cs @ ''//'' @ b2 @ rest)"
        using "1.IH" by blast
      then show ?thesis
        unfolding Cons kept by simp
    qed
  qed
qed

lemma rest_strip_slashes:
  "dropWhile (\<lambda>x. x \<noteq> newline) (strip_slashes s) =
     strip_slashes (dropWhile (\<lambda>x. x \<noteq> newline) s)"
proof (induction s rule: strip_slashes.induct)
  case 1
  show ?case by simp
next
  case (2 c cs)
  show ?case
  proof (cases "startswith (c # cs) ''//''")
    case True
    then obtain r where cs: "cs = CHR ''/'' # r" and c: "c = CHR ''/''"
      by (auto simp: startswith_Cons2)
    have "dropWhile (\<lambda>x. x \<noteq> newline) (c # cs) = dropWhile (\<lambda>x. x \<noteq> newline) r"
      by (simp add: c cs newline_def)
    moreover have "dropWhile (\<lambda>x. x \<noteq> newline) (strip_slashes (c # cs)) =
        strip_slashes (dropWhile (\<lambda>x. x \<noteq> newline) r)"
      using "2.IH"(1) [OF True] strip_slashes_delete [OF True] by (simp add: cs)
    ultimately show ?thesis by simp
  next
    case False
    note keep = strip_slashes_keep [OF False]
    show ?thesis
    proof (cases "c = newline")
      case True
      with keep show ?thesis by simp
    next
      case other: False
      with keep "2.IH"(2) [OF False] show ?thesis by simp
    qed
  qed
qed

lemma strip_hash_bodies:
  assumes b1: "newline \<notin> set b1" and b2: "newline \<notin> set b2"
    and rest: "rest = [] \<or> hd rest = newline"
  shows "strip_hash (strip_slashes (pre @ ''#'' @ b1 @ rest)) =
         strip_hash (strip_slashes (pre @ ''#'' @ b2 @ rest))"
proof (induction pre rule: length_induct)
  case (1 pre)
  have tail: "dropWhile (\<lambda>x. x \<noteq> newline) (l @ ''#'' @ b @ rest) = rest"
    if "newline \<notin> set l" and "newline \<notin> set b" for l b
    using rest_of_line [of "l @ ''#'' @ b" rest] that rest by (simp add: newline_def)
  have marker: "strip_hash (strip_slashes (''#'' @ b @ rest)) = strip_hash (strip_slashes rest)"
    if "newline \<notin> set b" for b
  proof -
    have "strip_slashes (''#'' @ b @ rest) = CHR ''#'' # strip_slashes (b @ rest)"
      using strip_slashes_keep [of "CHR ''#''" "b @ rest"] by (simp add: startswith_Cons2)
    then have "strip_hash (strip_slashes (''#'' @ b @ rest)) =
        strip_hash (strip_slashes (dropWhile (\<lambda>x. x \<noteq> newline) (b @ rest)))"
      by (simp add: strip_hash_delete rest_strip_slashes)
    then show ?thesis
      using rest_of_line [OF that rest] by simp
  qed
  have later: "strip_hash (strip_slashes (dropWhile (\<lambda>x. x \<noteq> newline) (p @ ''#'' @ b1 @ rest))) =
        strip_hash (strip_slashes (dropWhile (\<lambda>x. x \<noteq> newline) (p @ ''#'' @ b2 @ rest)))"
    if "length p < length pre" for p
  proof (cases "newline \<in> set p")
    case True
    let ?p = "dropWhile (\<lambda>x. x \<noteq> newline) p"
    have "length ?p < length pre"
      using length_rest [of p] that by simp
    then have "strip_hash (strip_slashes (?p @ ''#'' @ b1 @ rest)) =
        strip_hash (strip_slashes (?p @ ''#'' @ b2 @ rest))"
      using "1.IH" by blast
    then show ?thesis
      using rest_of_lines [OF True] by simp
  next
    case False
    from tail [OF False b1] tail [OF False b2] show ?thesis by simp
  qed
  show ?case
  proof (cases pre)
    case Nil
    from marker [OF b1] marker [OF b2] Nil show ?thesis by simp
  next
    case (Cons c cs)
    have shorter: "length cs < length pre" by (simp add: Cons)
    show ?thesis
    proof (cases "startswith (c # cs) ''//''")
      case True
      then obtain r where cs: "cs = CHR ''/'' # r" and c: "c = CHR ''/''"
        by (auto simp: startswith_Cons2)
      have "startswith (c # cs @ ''#'' @ b @ rest) ''//''" for b
        by (simp add: c cs startswith_Cons2)
      from strip_slashes_delete [OF this]
      have deleted: "strip_slashes ((c # cs) @ ''#'' @ b @ rest) =
          strip_slashes (dropWhile (\<lambda>x. x \<noteq> newline) (r @ ''#'' @ b @ rest))" for b
        by (simp add: cs)
      have "length r < length pre" by (simp add: Cons cs)
      from later [OF this] show ?thesis
        unfolding Cons deleted .
    next
      case False
      then have "\<not> startswith (c # cs @ ''#'' @ b @ rest) ''//''" for b
        by (cases cs) (auto simp: startswith_Cons2)
      from strip_slashes_keep [OF this]
      have kept: "strip_slashes ((c # cs) @ ''#'' @ b @ rest) =
          c # strip_slashes (cs @ ''#'' @ b @ rest)" for b
        by simp
      show ?thesis
      proof (cases "c = CHR ''#''")
        case True
        have "strip_hash (strip_slashes ((c # cs) @ ''#'' @ b @ rest)) =
            strip_hash (strip_slashes (dropWhile (\<lambda>x. x \<noteq> newline) (cs @ ''#'' @ b @ rest)))"
          for b
          unfolding kept by (simp add: True strip_hash_delete rest_strip_slashes)
        with later [OF shorter] show ?thesis
          unfolding Cons by simp
      next
        case other: False
        have "strip_hash (strip_slashes (cs @ ''#'' @ b1 @ rest)) =
            strip_hash (strip_slashes (cs @ ''#'' @ b2 @ rest))"
          using "1.IH" shorter by blast
        then show ?thesis
          unfolding Cons kept by (simp add: strip_hash_keep [OF other])
      qed
    qed
  qed
qed

lemma rest_starts_newline:
  "dropWhile (\<lambda>x. x \<noteq> newline) s = [] \<or> hd (dropWhile (\<lambda>x. x \<noteq> newline) s) = newline"
  using hd_dropWhile [of "\<lambda>x. x \<noteq> newline" s] by auto

lemma rest_head: "dropWhile (\<lambda>x. x \<noteq> newline) s = x # r \<Longrightarrow> x = newline"
  using rest_starts_newline [of s] by auto

lemma no_hash_left: "CHR ''#'' \<notin> set (strip_hash s)"
proof (induction s rule: strip_hash.induct)
  case 1
  show ?case by simp
next
  case (2 c cs)
  show ?case
  proof (cases "c = CHR ''#''")
    case True
    with "2.IH"(1) show ?thesis by (simp add: strip_hash_delete)
  next
    case False
    with "2.IH"(2) show ?thesis by (simp add: strip_hash_keep)
  qed
qed

lemma strip_slashes_head:
  "strip_slashes s = x # t \<Longrightarrow> x = newline \<or> (\<exists>r. s = x # r)"
proof (induction s rule: strip_slashes.induct)
  case 1
  then show ?case by simp
next
  case (2 c cs)
  show ?case
  proof (cases "startswith (c # cs) ''//''")
    case True
    let ?r = "dropWhile (\<lambda>x. x \<noteq> newline) (drop 1 cs)"
    from "2.prems" have "strip_slashes ?r = x # t"
      by (simp add: strip_slashes_delete [OF True])
    with "2.IH"(1) [OF True] have "x = newline \<or> (\<exists>r. ?r = x # r)" by simp
    then have "x = newline" using rest_head by blast
    then show ?thesis by simp
  next
    case False
    with "2.prems" show ?thesis by (simp add: strip_slashes_keep)
  qed
qed

lemma strip_hash_head:
  "strip_hash s = x # t \<Longrightarrow> x = newline \<or> (\<exists>r. s = x # r)"
proof (induction s rule: strip_hash.induct)
  case 1
  then show ?case by simp
next
  case (2 c cs)
  show ?case
  proof (cases "c = CHR ''#''")
    case True
    let ?r = "dropWhile (\<lambda>x. x \<noteq> newline) cs"
    from "2.prems" have "strip_hash ?r = x # t"
      by (simp add: True strip_hash_delete)
    with "2.IH"(1) [OF True] have "x = newline \<or> (\<exists>r. ?r = x # r)" by simp
    then have "x = newline" using rest_head by blast
    then show ?thesis by simp
  next
    case False
    with "2.prems" show ?thesis by (simp add: strip_hash_keep)
  qed
qed

lemma no_slashes_left: "\<not> contains (strip_slashes s) ''//''"
proof (induction s rule: strip_slashes.induct)
  case 1
  show ?case by simp
next
  case (2 c cs)
  show ?case
  proof (cases "startswith (c # cs) ''//''")
    case True
    with "2.IH"(1) show ?thesis by (simp add: strip_slashes_delete)
  next
    case False
    have "\<not> startswith (c # strip_slashes cs) ''//''"
    proof
      assume "startswith (c # strip_slashes cs) ''//''"
      then obtain t where c: "c = CHR ''/''" and t: "strip_slashes cs = CHR ''/'' # t"
        by (auto simp: startswith_Cons2)
      from strip_slashes_head [OF t] obtain r where "cs = CHR ''/'' # r"
        by (auto simp: newline_def)
      with c False show False by (simp add: startswith_Cons2)
    qed
    with "2.IH"(2) [OF False] show ?thesis
      by (simp add: strip_slashes_keep [OF False])
  qed
qed

lemma contains_rest:
  "contains (dropWhile p s) sub \<Longrightarrow> contains s sub"
proof -
  assume "contains (dropWhile p s) sub"
  then obtain a b where "dropWhile p s = a @ sub @ b"
    using contains_iff by blast
  then have "s = (takeWhile p s @ a) @ sub @ b"
    by (metis append_assoc takeWhile_dropWhile_id)
  then show ?thesis using contains_iff by blast
qed

lemma strip_hash_no_slashes:
  "\<not> contains s ''//'' \<Longrightarrow> \<not> contains (strip_hash s) ''//''"
proof (induction s rule: strip_hash.induct)
  case 1
  then show ?case by simp
next
  case (2 c cs)
  from "2.prems" have no: "\<not> startswith (c # cs) ''//''" and rest: "\<not> contains cs ''//''"
    by simp_all
  show ?case
  proof (cases "c = CHR ''#''")
    case True
    from rest have "\<not> contains (dropWhile (\<lambda>x. x \<noteq> newline) cs) ''//''"
      using contains_rest by blast
    with "2.IH"(1) [OF True] show ?thesis by (simp add: True strip_hash_delete)
  next
    case False
    have "\<not> startswith (c # strip_hash cs) ''//''"
    proof
      assume "startswith (c # strip_hash cs) ''//''"
      then obtain t where c: "c = CHR ''/''" and t: "strip_hash cs = CHR ''/'' # t"
        by (auto simp: startswith_Cons2)
      from strip_hash_head [OF t] obtain r where "cs = CHR ''/'' # r"
        by (auto simp: newline_def)
      with c no show False by (simp add: startswith_Cons2)
    qed
    with "2.IH"(2) [OF False rest] show ?thesis
      by (simp add: strip_hash_keep [OF False])
  qed
qed

lemma no_line_comment_left:
  "\<not> contains (remove_comments content) ''//''" "CHR ''#'' \<notin> set (remove_comments content)"
  unfolding remove_comments_def
  by (rule strip_hash_no_slashes [OF no_slashes_left]) (rule no_hash_left)

lemma remove_block_comment:
  assumes "closed_before pre" and "\<not> contains body ''*/''"
  shows "remove_comments (pre @ ''/*'' @ body @ ''*/'' @ post) =
         remove_comments (pre @ ''/**/'' @ post)"
proof -
  have "\<not> contains [] ''*/''" by simp
  from strip_block_first_comment [OF assms(1) this, of post]
    strip_block_first_comment [OF assms, of post]
  show ?thesis by (simp add: remove_comments_def)
qed

lemma remove_slashes_comment:
  assumes pre: "closed_before pre" and body: "newline \<notin> set body"
    and plain: "\<not> contains (''//'' @ body) ''/*''" and rest: "rest = [] \<or> hd rest = newline"
  shows "remove_comments (pre @ ''//'' @ body @ rest) = remove_comments (pre @ ''//'' @ rest)"
proof -
  have marker: "\<not> contains ''//'' ''/*''" by (simp add: startswith_Cons2)
  have "strip_block (pre @ (''//'' @ body) @ rest) =
      strip_block pre @ (''//'' @ body) @ strip_block rest"
    by (rule strip_block_plain_append [OF pre _ _ plain rest]) simp_all
  moreover have "strip_block (pre @ ''//'' @ rest) = strip_block pre @ ''//'' @ strip_block rest"
    by (rule strip_block_plain_append [OF pre _ _ marker rest]) simp_all
  moreover have "strip_slashes (strip_block pre @ ''//'' @ body @ strip_block rest) =
      strip_slashes (strip_block pre @ ''//'' @ [] @ strip_block rest)"
    by (rule strip_slashes_bodies [OF body _ strip_block_line_end [OF rest]]) simp
  ultimately show ?thesis by (simp add: remove_comments_def)
qed

lemma remove_hash_comment:
  assumes pre: "closed_before pre" and body: "newline \<notin> set body"
    and plain: "\<not> contains (''#'' @ body) ''/*''" and rest: "rest = [] \<or> hd rest = newline"
  shows "remove_comments (pre @ ''#'' @ body @ rest) = remove_comments (pre @ ''#'' @ rest)"
proof -
  have marker: "\<not> contains ''#'' ''/*''" by (simp add: startswith_def)
  have "strip_block (pre @ (''#'' @ body) @ rest) =
      strip_block pre @ (''#'' @ body) @ strip_block rest"
    by (rule strip_block_plain_append [OF pre _ _ plain rest]) simp_all
  moreover have "strip_block (pre @ ''#'' @ rest) = strip_block pre @ ''#'' @ strip_block rest"
    by (rule strip_block_plain_append [OF pre _ _ marker rest]) simp_all
  moreover have "strip_hash (strip_slashes (strip_block pre @ ''#'' @ body @ strip_block rest)) =
      strip_hash (strip_slashes (strip_block pre @ ''#'' @ [] @ strip_block rest))"
    by (rule strip_hash_bodies [OF body _ strip_block_line_end [OF rest]]) simp
  ultimately show ?thesis by (simp add: remove_comments_def)
qed

lemma extract_provider_aliases_eq:
  "extract_provider_aliases d =
     (\<Union>f\<in>{''provider.tf'', ''versions.tf''}.
        case read_file d f of
          Some content \<Rightarrow> set (findall match_alias (remove_comments content))
        | None \<Rightarrow> {})"
  unfolding extract_provider_aliases_def by (auto split: option.splits)

text \<open>
  Claim C5, as the code has it. Comment stripping is applied to the text of each file
  before any pattern is matched: every extractor matches on \<^verbatim>\<open>remove_comments\<close> of the
  text only. The stripping is three textual passes, block comments first, then \<^verbatim>\<open>//\<close>,
  then \<^verbatim>\<open>#\<close>. For every text: a block comment that starts where every earlier \<^verbatim>\<open>/*\<close>
  is closed is deleted whatever its body holds, over several lines too, so the result is
  that of the text with the comment emptied; the text from a \<^verbatim>\<open>//\<close> or \<^verbatim>\<open>#\<close> marker
  to the end of its line is deleted whatever it holds, when every earlier \<^verbatim>\<open>/*\<close> is
  closed and no \<^verbatim>\<open>/*\<close> overlaps or follows the marker on its line; so a reference in
  either kind of comment adds no dependency. No \<^verbatim>\<open>//\<close> and no \<^verbatim>\<open>#\<close> is left in a
  stripped text.
\<close>

theorem comments_contribute_nothing:
  "(valid_schedule sch \<longrightarrow>
      extract_explicit_dependencies sch d =
        (if listable d then set (concat (map (findall match_module) (tf_texts d))) else {}) \<and>
      extract_implicit_dependencies sch d =
        (if listable d
         then set (List.map_filter infer_module_name (concat (map (findall match_data) (tf_texts d))))
         else {}) \<and>
      set (tf_texts d) =
        {remove_comments text |f text.
           f \<in> fst ` set (entries d) \<and> endswith f ''.tf'' \<and> read_file d f = Some text}) \<and>
   extract_provider_aliases d =
     (\<Union>f\<in>{''provider.tf'', ''versions.tf''}.
        case read_file d f of
          Some text \<Rightarrow> set (findall match_alias (remove_comments text))
        | None \<Rightarrow> {}) \<and>
   (closed_before pre \<and> \<not> contains body ''*/'' \<longrightarrow>
      remove_comments (pre @ ''/*'' @ body @ ''*/'' @ post) =
      remove_comments (pre @ ''/**/'' @ post)) \<and>
   (closed_before pre \<and> newline \<notin> set body \<and> \<not> contains (''//'' @ body) ''/*'' \<and>
    (rest = [] \<or> hd rest = newline) \<longrightarrow>
      remove_comments (pre @ ''//'' @ body @ rest) = remove_comments (pre @ ''//'' @ rest)) \<and>
   (closed_before pre \<and> newline \<notin> set body \<and> \<not> contains (''#'' @ body) ''/*'' \<and>
    (rest = [] \<or> hd rest = newline) \<longrightarrow>
      remove_comments (pre @ ''#'' @ body @ rest) = remove_comments (pre @ ''#'' @ rest)) \<and>
   \<not> contains (remove_comments content) ''//'' \<and>
   CHR ''#'' \<notin> set (remove_comments content)"
proof (intro conjI impI)
  assume valid: "valid_schedule sch"
  show "extract_explicit_dependencies sch d =
        (if listable d then set (concat (map (findall match_module) (tf_texts d))) else {})"
    using extract_explicit_dependencies_eq [OF valid] by (simp add: module_blocks_def)
  show "extract_implicit_dependencies sch d =
        (if listable d
         then set (List.map_filter infer_module_name (concat (map (findall match_data) (tf_texts d))))
         else {})"
    using extract_implicit_dependencies_eq [OF valid]
    by (simp add: data_blocks_def set_map_filter_infer)
  show "set (tf_texts d) =
        {remove_comments text |f text.
           f \<in> fst ` set (entries d) \<and> endswith f ''.tf'' \<and> read_file d f = Some text}"
    by (rule set_tf_texts)
next
  show "extract_provider_aliases d =
     (\<Union>f\<in>{''provider.tf'', ''versions.tf''}.
        case read_file d f of
          Some text \<Rightarrow> set (findall match_alias (remove_comments text))
        | None \<Rightarrow> {})"
    by (rule extract_provider_aliases_eq)
next
  assume "closed_before pre \<and> \<not> contains body ''*/''"
  then show "remove_comments (pre @ ''/*'' @ body @ ''*/'' @ post) =
      remove_comments (pre @ ''/**/'' @ post)"
    by (intro remove_block_comment) simp_all
next
  assume "closed_before pre \<and> newline \<notin> set body \<and> \<not> contains (''//'' @ body) ''/*'' \<and>
    (rest = [] \<or> hd rest = newline)"
  then show "remove_comments (pre @ ''//'' @ body @ rest) = remove_comments (pre @ ''//'' @ rest)"
    by (intro remove_slashes_comment) simp_all
next
  assume "closed_before pre \<and> newline \<notin> set body \<and> \<not> contains (''#'' @ body) ''/*'' \<and>
    (rest = [] \<or> hd rest = newline)"
  then show "remove_comments (pre @ ''#'' @ body @ rest) = remove_comments (pre @ ''#'' @ rest)"
    by (intro remove_hash_comment) simp_all
next
  show "\<not> contains (remove_comments content) ''//''"
    and "CHR ''#'' \<notin> set (remove_comments content)"
    by (rule no_line_comment_left)+
qed

text \<open>
  The markers are matched textually, and the block pass runs first: in the one-line text
  \<^verbatim>\<open>//* */ module "x" {}\<close> the \<^verbatim>\<open>/*\<close> that overlaps the \<^verbatim>\<open>//\<close> opens a block
  comment, the line comment is lost, and the reference behind it is counted.
\<close>

theorem line_comment_overlap_counterexample:
  \<open>startswith ''//* */ module "x" {}'' ''//'' \<and>
   newline \<notin> set ''//* */ module "x" {}'' \<and>
   extract_explicit_dependencies forwards (single_file ''//* */ module "x" {}'') = {''x''}\<close>
  unfolding single_file_def forwards_def by code_simp

theorem comments_contribute_nothing_witness:
  \<open>valid_schedule forwards \<and>
   remove_comments ''module "a" {} /* module "x" {}\<newline> */ end'' = ''module "a" {}  end'' \<and>
   remove_comments ''module "a" {} // module "y" {}\<newline>end'' = ''module "a" {} \<newline>end'' \<and>
   remove_comments ''module "a" {} # module "z" {}\<newline>end'' = ''module "a" {} \<newline>end'' \<and>
   extract_explicit_dependencies forwards
     (single_file ''module "a" {} /* module "x" {}\<newline> */ end'') = {''a''}\<close>
proof -
  let ?pre = \<open>''module "a" {} ''\<close>
  let ?file = \<open>single_file ''module "a" {} /* module "x" {}\<newline> */ end''\<close>
  have pre: "closed_before ?pre"
    by code_simp
  have block: \<open>\<not> contains '' module "x" {}\<newline> '' ''*/''\<close>
    by code_simp
  have slashes: \<open>newline \<notin> set '' module "y" {}''\<close> \<open>\<not> contains (''//'' @ '' module "y" {}'') ''/*''\<close>
    by code_simp+
  have hash: \<open>newline \<notin> set '' module "z" {}''\<close> \<open>\<not> contains (''#'' @ '' module "z" {}'') ''/*''\<close>
    by code_simp+
  have rest: "''\<newline>end'' = [] \<or> hd ''\<newline>end'' = newline"
    by (simp add: newline_def)
  have short: \<open>remove_comments (?pre @ ''/**/'' @ '' end'') = ''module "a" {}  end''\<close>
    \<open>remove_comments (?pre @ ''//'' @ ''\<newline>end'') = ''module "a" {} \<newline>end''\<close>
    \<open>remove_comments (?pre @ ''#'' @ ''\<newline>end'') = ''module "a" {} \<newline>end''\<close>
    by code_simp+
  have \<open>remove_comments (?pre @ ''/*'' @ '' module "x" {}\<newline> '' @ ''*/'' @ '' end'') =
      remove_comments (?pre @ ''/**/'' @ '' end'')\<close>
    by (rule comments_contribute_nothing [THEN conjunct2, THEN conjunct2, THEN conjunct1, THEN mp])
       (intro conjI pre block)
  with short(1)
  have one: \<open>remove_comments ''module "a" {} /* module "x" {}\<newline> */ end'' = ''module "a" {}  end''\<close>
    by simp
  have \<open>remove_comments (?pre @ ''//'' @ '' module "y" {}'' @ ''\<newline>end'') =
      remove_comments (?pre @ ''//'' @ ''\<newline>end'')\<close>
    by (rule comments_contribute_nothing [THEN conjunct2, THEN conjunct2, THEN conjunct2,
          THEN conjunct1, THEN mp])
       (intro conjI pre slashes rest)
  with short(2)
  have two: \<open>remove_comments ''module "a" {} // module "y" {}\<newline>end'' = ''module "a" {} \<newline>end''\<close>
    by simp
  have \<open>remove_comments (?pre @ ''#'' @ '' module "z" {}'' @ ''\<newline>end'') =
      remove_comments (?pre @ ''#'' @ ''\<newline>end'')\<close>
    by (rule comments_contribute_nothing [THEN conjunct2, THEN conjunct2, THEN conjunct2,
          THEN conjunct2, THEN conjunct1, THEN mp])
       (intro conjI pre hash rest)
  with short(3)
  have three: \<open>remove_comments ''module "a" {} # module "z" {}\<newline>end'' = ''module "a" {} \<newline>end''\<close>
    by simp
  have texts: \<open>tf_texts ?file = [remove_comments ''module "a" {} /* module "x" {}\<newline> */ end'']\<close>
    by (simp add: tf_texts_def single_file_def read_file_def endswith_def)
  have found: \<open>findall match_module ''module "a" {}  end'' = [''a'']\<close>
    by code_simp
  have "listable ?file"
    by (simp add: single_file_def)
  with comments_contribute_nothing [of forwards ?file, THEN conjunct1, THEN mp, OF valid_forwards,
      THEN conjunct1]
  have four: \<open>extract_explicit_dependencies forwards ?file = {''a''}\<close>
    by (simp add: texts one found)
  from valid_forwards one two three four show ?thesis by simp
qed

end
